theory Spec2Isabelle
  imports Complex_Main "HOL-Library.Log_Nat"
begin

section \<open>Data model\<close>

text \<open>
  A retrieval result is the dictionary that \<open>record.data()\<close> builds from one row of a
  Cypher \<open>RETURN\<close>: the keys \<open>id\<close>, \<open>title\<close>, \<open>offense\<close>, \<open>decision\<close>, \<open>full_text\<close>,
  \<open>citation_count\<close>, \<open>found_via\<close> and \<open>relevance_score\<close>. A property that is absent on a
  node is \<open>null\<close> in Cypher and \<open>None\<close> in Python: \<open>None\<close> here. A similarity score is a
  finite double, given as the real number it denotes: comparisons, \<open>max\<close> and \<open>sum\<close> are
  taken on these reals, and the one product of the application, \<open>relevance_score * 100\<close>,
  is rounded as the machine rounds it (see \<open>float_mul\<close>).
\<close>

record result =
  rid :: string
  title :: "string option"
  r_offense :: "string option"
  decision :: "string option"
  full_text :: "string option"
  citation_count :: int
  found_via :: "string list"
  relevance_score :: real

section \<open>The graph store\<close>

text \<open>
  The Neo4j store as the queries see it. A node is addressed by its \<open>elementId\<close>; it has
  labels and the properties the queries read (\<open>name\<close>, \<open>offense\<close>, \<open>decisionSummary\<close>,
  \<open>text\<close>), each possibly absent. An identifier that names no stored node stands for a
  node without labels, properties or relationships. A relationship has a start node, a
  type and an end node; two relationships are the same one only if they stand at the
  same position of \<open>rels\<close>, so parallel relationships between two nodes are possible.
  A vector index, looked up by name, ranks node identifiers by similarity to an
  embedding, best first.
\<close>

record node =
  n_labels :: "string list"
  n_name :: "string option"
  n_offense :: "string option"
  n_decisionSummary :: "string option"
  n_text :: "string option"

record rel =
  start :: string
  rtype :: string
  target :: string

type_synonym embedding = "real list"

record store =
  node_of :: "string \<Rightarrow> node"
  rels :: "rel list"
  vector_index :: "string \<Rightarrow> (embedding \<Rightarrow> (string \<times> real) list) option"

datatype db_error = ServiceUnavailable | NoSuchIndex

definition NEO4J_VECTOR_INDEX :: string where
  "NEO4J_VECTOR_INDEX = ''case-text-embeddings''"

subsection \<open>Strings\<close>

text \<open>
  Characters are code points below 256. \<open>lower\<close> is Python's \<open>str.lower\<close> and Cypher's
  \<open>toLower\<close> on them, \<open>strip\<close> is Python's \<open>str.strip\<close> (white space as \<open>str.isspace\<close>
  has it), \<open>contains\<close> is Cypher's \<open>CONTAINS\<close>.
\<close>

definition lower_char :: "char \<Rightarrow> char" where
  "lower_char c =
     (let n = (of_char c :: nat)
      in if (65 \<le> n \<and> n \<le> 90) \<or> (192 \<le> n \<and> n \<le> 222 \<and> n \<noteq> 215)
         then char_of (n + 32) else c)"

definition lower :: "string \<Rightarrow> string" where
  "lower s = map lower_char s"



fun is_prefix :: "string \<Rightarrow> string \<Rightarrow> bool" where
  "is_prefix [] s = True"
| "is_prefix (p # ps) [] = False"
| "is_prefix (p # ps) (c # cs) = (p = c \<and> is_prefix ps cs)"

fun contains :: "string \<Rightarrow> string \<Rightarrow> bool" where
  "contains [] p = (p = [])"
| "contains (c # cs) p = (is_prefix p (c # cs) \<or> contains cs p)"

subsection \<open>Cypher clauses\<close>

text \<open>
  \<open>CALL db.index.vector.queryNodes($index_name, $top_k, $embedding) YIELD node, score\<close>:
  at most \<open>top_k\<close> rows, best first; a name that is no index makes the query fail.
\<close>

definition queryNodes :: "store \<Rightarrow> string \<Rightarrow> nat \<Rightarrow> embedding \<Rightarrow> db_error + (string \<times> real) list" where
  "queryNodes s index_name top_k emb =
     (case vector_index s index_name of
        None \<Rightarrow> Inl NoSuchIndex
      | Some ranking \<Rightarrow> Inr (take top_k (ranking emb)))"

text \<open>
  \<open>MATCH (a)-[:CITES*1..2]->(p)\<close> yields one row for every path of one or two \<open>CITES\<close>
  relationships that leaves \<open>a\<close>; a path does not use the same relationship twice.
  \<open>cites_1_2\<close> lists the end node of every such path, so a node reached over several
  paths is listed once per path.
\<close>

definition cites_from :: "store \<Rightarrow> string \<Rightarrow> (nat \<times> string) list" where
  "cites_from s a =
     map (\<lambda>(i, r). (i, target r))
       (filter (\<lambda>(i, r). start r = a \<and> rtype r = ''CITES'') (enumerate 0 (rels s)))"

definition cites_1_2 :: "store \<Rightarrow> string \<Rightarrow> string list" where
  "cites_1_2 s a =
     concat (map (\<lambda>(i, m). m # map snd (filter (\<lambda>(j, p). j \<noteq> i) (cites_from s m)))
       (cites_from s a))"

definition has_label :: "store \<Rightarrow> string \<Rightarrow> string \<Rightarrow> bool" where
  "has_label s l n = (l \<in> set (n_labels (node_of s n)))"

text \<open>
  \<open>OPTIONAL MATCH (p)-[:HAS_TEXT]->(t:TEXT)\<close>: one row for every such relationship, and
  one row with \<open>t\<close> null when there is none. \<open>t.text\<close> of a null \<open>t\<close> is null.
\<close>

definition text_nodes :: "store \<Rightarrow> string \<Rightarrow> string list" where
  "text_nodes s p =
     filter (has_label s ''TEXT'')
       (map target (filter (\<lambda>r. start r = p \<and> rtype r = ''HAS_TEXT'') (rels s)))"

definition optional_text_nodes :: "store \<Rightarrow> string \<Rightarrow> string option list" where
  "optional_text_nodes s p =
     (if text_nodes s p = [] then [None] else map Some (text_nodes s p))"

definition text_of :: "store \<Rightarrow> string option \<Rightarrow> string option" where
  "text_of s t = (case t of None \<Rightarrow> None | Some n \<Rightarrow> n_text (node_of s n))"

text \<open>\<open>ORDER BY\<close>: a stable insertion sort, \<open>ahead x y\<close> saying that \<open>x\<close> may stand in front of \<open>y\<close>.\<close>

fun insert_by :: "('a \<Rightarrow> 'a \<Rightarrow> bool) \<Rightarrow> 'a \<Rightarrow> 'a list \<Rightarrow> 'a list" where
  "insert_by ahead x [] = [x]"
| "insert_by ahead x (y # ys) =
     (if ahead x y then x # y # ys else y # insert_by ahead x ys)"

definition order_by :: "('a \<Rightarrow> 'a \<Rightarrow> bool) \<Rightarrow> 'a list \<Rightarrow> 'a list" where
  "order_by ahead xs = foldr (insert_by ahead) xs []"

text \<open>
  Aggregation: the rows are grouped by the values of the grouping expressions; a group
  is its first row together with the later rows that have the same key.
\<close>

fun groups :: "('a \<Rightarrow> 'k) \<Rightarrow> 'a list \<Rightarrow> ('a \<times> 'a list) list" where
  "groups key [] = []"
| "groups key (x # xs) =
     (x, filter (\<lambda>y. key y = key x) xs) # groups key (filter (\<lambda>y. key y \<noteq> key x) xs)"

section \<open>app.py: the retrieval tiers\<close>

text \<open>A row of variable bindings, as \<open>RETURN\<close> finds it.\<close>

record binding =
  anchorCase :: string
  score :: real
  precedent :: string
  precedentText :: "string option"

text \<open>
  The \<open>WHERE\<close> clause that \<open>graph_rag_search\<close> splices into the query. A null
  \<open>decisionSummary\<close> makes the condition null, and the row is dropped.
\<close>

definition filter_clause :: "string \<Rightarrow> bool \<Rightarrow> node \<Rightarrow> bool" where
  "filter_clause strategy apply_filter p =
     (if apply_filter then
        (if strategy = ''defense'' then
           (case n_decisionSummary p of None \<Rightarrow> False
            | Some d \<Rightarrow> contains (lower d) ''reverse'' \<or> contains (lower d) ''acquit'')
         else
           (case n_decisionSummary p of None \<Rightarrow> False
            | Some d \<Rightarrow> contains (lower d) ''affirm''))
      else True)"

definition match_precedents :: "store \<Rightarrow> (node \<Rightarrow> bool) \<Rightarrow> string \<Rightarrow> string list" where
  "match_precedents s cond a =
     filter (\<lambda>p. has_label s ''CASE'' p \<and> cond (node_of s p)) (cites_1_2 s a)"

definition graph_rows :: "store \<Rightarrow> (node \<Rightarrow> bool) \<Rightarrow> (string \<times> real) list \<Rightarrow> binding list" where
  "graph_rows s cond hits =
     concat (map (\<lambda>(a, sc).
       concat (map (\<lambda>p.
         map (\<lambda>t. \<lparr>anchorCase = a, score = sc, precedent = p, precedentText = t\<rparr>)
           (optional_text_nodes s p))
         (match_precedents s cond a)))
       hits)"

definition group_key :: "store \<Rightarrow> binding \<Rightarrow> string \<times> string option \<times> string option \<times> string option \<times> string option" where
  "group_key s b =
     (precedent b, n_name (node_of s (precedent b)), n_offense (node_of s (precedent b)),
      n_decisionSummary (node_of s (precedent b)), text_of s (precedentText b))"

text \<open>\<open>collect(DISTINCT anchorCase.name)\<close> leaves null names out.\<close>

definition collect_distinct_names :: "store \<Rightarrow> binding list \<Rightarrow> string list" where
  "collect_distinct_names s bs =
     rev (remdups (rev (concat (map (\<lambda>b. case n_name (node_of s (anchorCase b)) of
                                        None \<Rightarrow> [] | Some n \<Rightarrow> [n]) bs))))"

definition aggregate :: "store \<Rightarrow> binding \<times> binding list \<Rightarrow> result" where
  "aggregate s g =
     (case g of (b, bs) \<Rightarrow>
       \<lparr>rid = precedent b,
        title = n_name (node_of s (precedent b)),
        r_offense = n_offense (node_of s (precedent b)),
        decision = n_decisionSummary (node_of s (precedent b)),
        full_text = text_of s (precedentText b),
        citation_count = int (length (b # bs)),
        found_via = take 3 (collect_distinct_names s (b # bs)),
        relevance_score = fold max (map score bs) (score b)\<rparr>)"

definition ranks_before :: "result \<Rightarrow> result \<Rightarrow> bool" where
  "ranks_before x y =
     (citation_count y < citation_count x
      \<or> (citation_count x = citation_count y \<and> relevance_score y \<le> relevance_score x))"

definition graph_query :: "store \<Rightarrow> (node \<Rightarrow> bool) \<Rightarrow> string \<Rightarrow> nat \<Rightarrow> embedding \<Rightarrow> db_error + result list" where
  "graph_query s cond index_name top_k emb =
     (case queryNodes s index_name top_k emb of
        Inl e \<Rightarrow> Inl e
      | Inr hits \<Rightarrow>
          Inr (take 5 (order_by ranks_before
                 (map (aggregate s) (groups (group_key s) (graph_rows s cond hits))))))"

definition vector_rows :: "store \<Rightarrow> (string \<times> real) list \<Rightarrow> result list" where
  "vector_rows s hits =
     concat (map (\<lambda>(c, sc).
       map (\<lambda>t. \<lparr>rid = c,
                 title = n_name (node_of s c),
                 r_offense = n_offense (node_of s c),
                 decision = n_decisionSummary (node_of s c),
                 full_text = text_of s t,
                 citation_count = 0,
                 found_via = [],
                 relevance_score = sc\<rparr>)
         (optional_text_nodes s c))
       hits)"

definition vector_query :: "store \<Rightarrow> string \<Rightarrow> nat \<Rightarrow> embedding \<Rightarrow> db_error + result list" where
  "vector_query s index_name top_k emb =
     (case queryNodes s index_name top_k emb of
        Inl e \<Rightarrow> Inl e
      | Inr hits \<Rightarrow>
          Inr (order_by (\<lambda>x y. relevance_score y \<le> relevance_score x) (vector_rows s hits)))"

text \<open>
  The world of the interactive application: whether \<open>get_driver()\<close> gives a driver, the
  store as each successive call of a tier function finds it (\<open>Inl\<close>: opening the session
  or running the query raises), and the tier functions called so far.
\<close>

datatype call = Graph_rag_search bool | Vector_only_search

record world =
  driver :: bool
  db_at :: "nat \<Rightarrow> db_error + store"
  calls :: "call list"

definition session_run :: "world \<Rightarrow> (store \<Rightarrow> db_error + 'a list) \<Rightarrow> db_error + 'a list" where
  "session_run w query =
     (case db_at w (length (calls w)) of Inl e \<Rightarrow> Inl e | Inr s \<Rightarrow> query s)"

definition vector_only_search :: "world \<Rightarrow> embedding \<Rightarrow> nat \<Rightarrow> result list \<times> world" where
  "vector_only_search w emb top_k =
     (let w' = w\<lparr>calls := calls w @ [Vector_only_search]\<rparr>
      in if \<not> driver w then ([], w')
         else (case session_run w (\<lambda>s. vector_query s NEO4J_VECTOR_INDEX top_k emb) of
                 Inr records \<Rightarrow> (records, w')
               | Inl e \<Rightarrow> ([], w')))"

definition graph_rag_search :: "world \<Rightarrow> embedding \<Rightarrow> string \<Rightarrow> nat \<Rightarrow> bool \<Rightarrow> result list \<times> world" where
  "graph_rag_search w emb strategy top_k_anchors apply_filter =
     (let w' = w\<lparr>calls := calls w @ [Graph_rag_search apply_filter]\<rparr>
      in if \<not> driver w then ([], w')
         else (case session_run w (\<lambda>s. graph_query s (filter_clause strategy apply_filter)
                                         NEO4J_VECTOR_INDEX top_k_anchors emb) of
                 Inr records \<Rightarrow> (records, w')
               | Inl e \<Rightarrow> ([], w')))"

section \<open>app.py: the cascade of main\<close>

definition cascade :: "world \<Rightarrow> embedding \<Rightarrow> string \<Rightarrow> result list \<times> string \<times> world" where
  "cascade w emb strat_key =
     (let (results, w1) = graph_rag_search w emb strat_key 5 True;
          method = ''Gold'';
          (results, method, w2) =
            (if results = [] then
               (let (r, w') = graph_rag_search w1 emb strat_key 5 False
                in (r, ''Silver'', w'))
             else (results, method, w1));
          (results, method, w3) =
            (if results = [] then
               (let (r, w') = vector_only_search w2 emb 5
                in (r, ''Bronze'', w'))
             else (results, method, w2))
      in (results, method, w3))"

section \<open>app.py: the embedding client\<close>

text \<open>
  \<open>genai.embed_content(model=..., content=..., task_type=...)\<close> is the external service; the
  request it receives is a record, the service itself a parameter that answers with a
  vector or raises.
\<close>

record embed_request =
  model :: string
  content :: string
  task_type :: string

datatype api_error = ApiError

type_synonym embed_service = "embed_request \<Rightarrow> api_error + embedding"

definition EMBEDDING_MODEL :: string where
  "EMBEDDING_MODEL = ''text-embedding-004''"

definition app_embed_request :: "string \<Rightarrow> embed_request" where
  "app_embed_request text =
     \<lparr>model = EMBEDDING_MODEL, content = text, task_type = ''RETRIEVAL_QUERY''\<rparr>"

definition app_get_embedding :: "embed_service \<Rightarrow> string \<Rightarrow> embedding option" where
  "app_get_embedding svc text =
     (case svc (app_embed_request text) of Inl e \<Rightarrow> None | Inr v \<Rightarrow> Some v)"

section \<open>app.py: the confidence shown on a result card\<close>

subsection \<open>Python floats\<close>

text \<open>
  A Python float is an IEEE 754 double: 53 significant bits, the last place never below
  \<open>2 ^ -1074\<close>. The product of two floats is the exact product rounded to the nearest
  double, a tie going to the even significand; a result of \<open>2 ^ 1024\<close> or more is
  infinite, which is \<open>None\<close> here. \<open>float_exponent a\<close> is the \<open>e\<close> with
  \<open>2 ^ e \<le> a < 2 ^ (e + 1)\<close>, for a positive \<open>a\<close>.
\<close>

definition round_half_even :: "real \<Rightarrow> int" where
  "round_half_even x =
     (let f = \<lfloor>x\<rfloor>; d = x - of_int f
      in if d < 1 / 2 then f else if 1 / 2 < d then f + 1
         else if even f then f else f + 1)"

definition float_exponent :: "real \<Rightarrow> int" where
  "float_exponent a =
     (if 1 \<le> a then bitlen \<lfloor>a\<rfloor> - 1 else - bitlen (\<lceil>1 / a\<rceil> - 1))"

definition pow2 :: "int \<Rightarrow> real" where
  "pow2 q = (if 0 \<le> q then 2 ^ nat q else 1 / 2 ^ nat (- q))"

definition round_double :: "real \<Rightarrow> real option" where
  "round_double r =
     (if r = 0 then Some 0
      else
        (let a = \<bar>r\<bar>;
             q = max (float_exponent a - 52) (- 1074);
             m = round_half_even (a / pow2 q);
             v = of_int m * pow2 q
         in if 2 ^ 1024 \<le> v then None else Some (if r < 0 then - v else v)))"

definition float_mul :: "real \<Rightarrow> real \<Rightarrow> real option" where
  "float_mul x y = round_double (x * y)"

text \<open>
  Python's \<open>int(x)\<close> on a finite float truncates towards zero; on an infinite one it
  raises \<open>OverflowError\<close>. Python's \<open>round(x)\<close> gives the nearest integer, a tie going
  to the even one.
\<close>

datatype py_error = OverflowError

definition py_int :: "real \<Rightarrow> int" where
  "py_int x = (if 0 \<le> x then \<lfloor>x\<rfloor> else \<lceil>x\<rceil>)"

definition py_round :: "real \<Rightarrow> int" where
  "py_round x = round_half_even x"

subsection \<open>The confidence\<close>

definition confidence :: "result \<Rightarrow> py_error + int" where
  "confidence c =
     (case float_mul (relevance_score c) 100 of
        None \<Rightarrow> Inl OverflowError
      | Some p \<Rightarrow>
          (let conf = py_int p + citation_count c * 5
           in Inr (min conf 99)))"

text \<open>
  The formula as the specification words it, with \<open>round\<close> in place of \<open>int\<close>.
\<close>

definition spec_confidence :: "result \<Rightarrow> py_error + int" where
  "spec_confidence c =
     (case float_mul (relevance_score c) 100 of
        None \<Rightarrow> Inl OverflowError
      | Some p \<Rightarrow> Inr (min (py_round p + citation_count c * 5) 99))"

section \<open>benchmark.py: the embedding client\<close>

definition benchmark_embed_request :: "string \<Rightarrow> embed_request" where
  "benchmark_embed_request text =
     \<lparr>model = EMBEDDING_MODEL, content = take 9000 text, task_type = ''RETRIEVAL_QUERY''\<rparr>"

definition benchmark_get_embedding :: "embed_service \<Rightarrow> string \<Rightarrow> embedding option" where
  "benchmark_get_embedding svc text =
     (case svc (benchmark_embed_request text) of Inl e \<Rightarrow> None | Inr v \<Rightarrow> Some v)"

section \<open>benchmark.py: retrieval\<close>

text \<open>
  \<open>retrieve_cases\<close> runs one of two queries and keeps \<open>id\<close> and \<open>offense\<close> of every
  row. It has no handler: a failure of the store is raised to the caller (\<open>Inl\<close>).
\<close>

record item =
  item_id :: string
  item_offense :: "string option"

record scored =
  s_id :: string
  s_offense :: "string option"
  s_score :: real

definition bench_graph_rows :: "store \<Rightarrow> (string \<times> real) list \<Rightarrow> (string \<times> real \<times> string) list" where
  "bench_graph_rows s anchors =
     concat (map (\<lambda>(a, sc).
       map (\<lambda>p. (a, sc, p))
         (filter (\<lambda>p. has_label s ''CASE'' p \<and> n_offense (node_of s p) \<noteq> None) (cites_1_2 s a)))
       anchors)"

definition bench_aggregate :: "store \<Rightarrow> (string \<times> real \<times> string) \<times> (string \<times> real \<times> string) list \<Rightarrow> scored" where
  "bench_aggregate s g =
     (case g of ((a, sc, p), bs) \<Rightarrow>
        \<lparr>s_id = p, s_offense = n_offense (node_of s p),
         s_score = sum_list (map (\<lambda>(a', sc', p'). sc') ((a, sc, p) # bs))\<rparr>)"

definition bench_graph_query :: "store \<Rightarrow> string \<Rightarrow> embedding \<Rightarrow> string \<Rightarrow> db_error + scored list" where
  "bench_graph_query s index_name emb original_id =
     (case queryNodes s index_name 50 emb of
        Inl e \<Rightarrow> Inl e
      | Inr hits \<Rightarrow>
          (let anchors = filter (\<lambda>(a, sc). a \<noteq> original_id) hits;
               rows = bench_graph_rows s anchors;
               grouped = map (bench_aggregate s)
                           (groups (\<lambda>(a, sc, p). (p, n_offense (node_of s p))) rows)
           in Inr (take 10 (order_by (\<lambda>x y. s_score y \<le> s_score x) grouped))))"

definition bench_vector_query :: "store \<Rightarrow> string \<Rightarrow> embedding \<Rightarrow> string \<Rightarrow> db_error + scored list" where
  "bench_vector_query s index_name emb original_id =
     (case queryNodes s index_name 10 emb of
        Inl e \<Rightarrow> Inl e
      | Inr hits \<Rightarrow>
          (let kept = filter (\<lambda>(p, sc). p \<noteq> original_id \<and> n_offense (node_of s p) \<noteq> None) hits;
               rows = map (\<lambda>(p, sc). \<lparr>s_id = p, s_offense = n_offense (node_of s p),
                                       s_score = sc\<rparr>) kept
           in Inr (take 10 (order_by (\<lambda>x y. s_score y \<le> s_score x) rows))))"

definition retrieve_cases :: "db_error + store \<Rightarrow> embedding \<Rightarrow> string \<Rightarrow> bool \<Rightarrow> db_error + item list" where
  "retrieve_cases db emb original_id use_graph =
     (case db of
        Inl e \<Rightarrow> Inl e
      | Inr s \<Rightarrow>
          (case (if use_graph then bench_graph_query s NEO4J_VECTOR_INDEX emb original_id
                 else bench_vector_query s NEO4J_VECTOR_INDEX emb original_id) of
             Inl e \<Rightarrow> Inl e
           | Inr results \<Rightarrow>
               Inr (map (\<lambda>r. \<lparr>item_id = s_id r, item_offense = s_offense r\<rparr>) results)))"

section \<open>benchmark.py: scoring\<close>








section \<open>The aggregates as the specification words them\<close>

text \<open>
  The anchors whose traversal reaches a precedent, each once, and their number: the
  citation count of the specification.
\<close>

definition anchors_reaching :: "store \<Rightarrow> (string \<times> real) list \<Rightarrow> string \<Rightarrow> string list" where
  "anchors_reaching s hits p =
     remdups (map fst (filter (\<lambda>(a, sc). p \<in> set (cites_1_2 s a)) hits))"

definition spec_citation_count :: "store \<Rightarrow> (string \<times> real) list \<Rightarrow> string \<Rightarrow> int" where
  "spec_citation_count s hits p = int (length (anchors_reaching s hits p))"

section \<open>Example stores\<close>

text \<open>
  Three small stores over the same nodes: an anchor case \<open>A\<close>, the cases \<open>B\<close> and \<open>P\<close>,
  and two text nodes. In the first, \<open>A\<close> cites \<open>P\<close> directly and through \<open>B\<close>; in the
  second, \<open>A\<close> cites \<open>P\<close> once and \<open>P\<close> has two texts; the third has no relationship.
  The index ranks \<open>A\<close> alone, with score 0.9.
\<close>

definition ex_node :: "string \<Rightarrow> node" where
  "ex_node i =
     (if i = ''A'' then
        \<lparr>n_labels = [''CASE''], n_name = Some ''Adams v. State'', n_offense = Some ''Theft'',
         n_decisionSummary = Some ''Dismissed'', n_text = None\<rparr>
      else if i = ''B'' then
        \<lparr>n_labels = [''CASE''], n_name = Some ''Brown v. State'', n_offense = None,
         n_decisionSummary = Some ''Affirmed'', n_text = None\<rparr>
      else if i = ''P'' then
        \<lparr>n_labels = [''CASE''], n_name = Some ''Pope v. State'', n_offense = Some ''Theft'',
         n_decisionSummary = Some ''Reversed'', n_text = None\<rparr>
      else if i = ''T1'' then
        \<lparr>n_labels = [''TEXT''], n_name = None, n_offense = None,
         n_decisionSummary = None, n_text = Some ''first''\<rparr>
      else if i = ''T2'' then
        \<lparr>n_labels = [''TEXT''], n_name = None, n_offense = None,
         n_decisionSummary = None, n_text = Some ''second''\<rparr>
      else
        \<lparr>n_labels = [], n_name = None, n_offense = None,
         n_decisionSummary = None, n_text = None\<rparr>)"

definition ex_index :: "string \<Rightarrow> (embedding \<Rightarrow> (string \<times> real) list) option" where
  "ex_index index_name =
     (if index_name = NEO4J_VECTOR_INDEX then Some (\<lambda>emb. [(''A'', 9 / 10)]) else None)"

definition two_path_store :: store where
  "two_path_store =
     \<lparr>node_of = ex_node,
      rels = [\<lparr>start = ''A'', rtype = ''CITES'', target = ''P''\<rparr>,
              \<lparr>start = ''A'', rtype = ''CITES'', target = ''B''\<rparr>,
              \<lparr>start = ''B'', rtype = ''CITES'', target = ''P''\<rparr>],
      vector_index = ex_index\<rparr>"

definition two_text_store :: store where
  "two_text_store =
     \<lparr>node_of = ex_node,
      rels = [\<lparr>start = ''A'', rtype = ''CITES'', target = ''P''\<rparr>,
              \<lparr>start = ''P'', rtype = ''HAS_TEXT'', target = ''T1''\<rparr>,
              \<lparr>start = ''P'', rtype = ''HAS_TEXT'', target = ''T2''\<rparr>],
      vector_index = ex_index\<rparr>"

definition isolated_store :: store where
  "isolated_store = \<lparr>node_of = ex_node, rels = [], vector_index = ex_index\<rparr>"

text \<open>
  A store for the benchmark: the source case \<open>S\<close> has a text and cites the authority
  \<open>G\<close>; the case \<open>A\<close> cites both \<open>G\<close> and \<open>S\<close>. The index ranks \<open>S\<close> first, then \<open>A\<close>.
\<close>

definition bench_node :: "string \<Rightarrow> node" where
  "bench_node i =
     (if i = ''S'' then
        \<lparr>n_labels = [''CASE''], n_name = Some ''Stone v. State'', n_offense = Some ''Theft'',
         n_decisionSummary = Some ''Affirmed'', n_text = None\<rparr>
      else if i = ''A'' then
        \<lparr>n_labels = [''CASE''], n_name = Some ''Adams v. State'', n_offense = Some ''Arson'',
         n_decisionSummary = Some ''Affirmed'', n_text = None\<rparr>
      else if i = ''G'' then
        \<lparr>n_labels = [''CASE''], n_name = Some ''Gray v. State'', n_offense = Some ''Theft'',
         n_decisionSummary = Some ''Reversed'', n_text = None\<rparr>
      else if i = ''T'' then
        \<lparr>n_labels = [''TEXT''], n_name = None, n_offense = None,
         n_decisionSummary = None, n_text = Some ''opinion''\<rparr>
      else
        \<lparr>n_labels = [], n_name = None, n_offense = None,
         n_decisionSummary = None, n_text = None\<rparr>)"

definition bench_store :: store where
  "bench_store =
     \<lparr>node_of = bench_node,
      rels = [\<lparr>start = ''S'', rtype = ''CITES'', target = ''G''\<rparr>,
              \<lparr>start = ''A'', rtype = ''CITES'', target = ''G''\<rparr>,
              \<lparr>start = ''A'', rtype = ''CITES'', target = ''S''\<rparr>,
              \<lparr>start = ''S'', rtype = ''HAS_TEXT'', target = ''T''\<rparr>],
      vector_index = (\<lambda>index_name. if index_name = NEO4J_VECTOR_INDEX
                       then Some (\<lambda>emb. [(''S'', 1), (''A'', 4 / 5)]) else None)\<rparr>"

text \<open>
  A store without relationships whose index yields the double nearest to 0.35, which
  is \<open>3152519739159347 / 2 ^ 53\<close>.
\<close>

definition float_store :: store where
  "float_store =
     \<lparr>node_of = ex_node, rels = [],
      vector_index = (\<lambda>index_name. if index_name = NEO4J_VECTOR_INDEX
                       then Some (\<lambda>emb. [(''A'', 3152519739159347 / 9007199254740992)])
                       else None)\<rparr>"

text \<open>A world with a driver, in which every call finds the given store.\<close>

definition up :: "store \<Rightarrow> world" where
  "up s = \<lparr>driver = True, db_at = (\<lambda>n. Inr s), calls = []\<rparr>"

text \<open>A world in which the first two calls find the store unreachable.\<close>

definition recovering :: "store \<Rightarrow> world" where
  "recovering s =
     \<lparr>driver = True,
      db_at = (\<lambda>n. if n < 2 then Inl ServiceUnavailable else Inr s),
      calls = []\<rparr>"

section \<open>Sorting and grouping\<close>

subsection \<open>The insertion sort of \<open>ORDER BY\<close>\<close>

lemma set_insert_by: "set (insert_by ahead x xs) = insert x (set xs)"
  by (induction xs) auto

lemma set_order_by: "set (order_by ahead xs) = set xs"
  by (induction xs) (simp_all add: order_by_def set_insert_by)

lemma length_insert_by: "length (insert_by ahead x xs) = Suc (length xs)"
  by (induction xs) auto

lemma length_order_by: "length (order_by ahead xs) = length xs"
  by (induction xs) (simp_all add: order_by_def length_insert_by)

lemma distinct_insert_by:
  "distinct (map f (insert_by ahead x xs)) = (f x \<notin> f ` set xs \<and> distinct (map f xs))"
  by (induction xs) (auto simp: set_insert_by)

lemma distinct_order_by: "distinct (map f (order_by ahead xs)) = distinct (map f xs)"
proof (induction xs)
  case Nil
  show ?case by (simp add: order_by_def)
next
  case (Cons x xs)
  have "order_by ahead (x # xs) = insert_by ahead x (order_by ahead xs)"
    by (simp add: order_by_def)
  then show ?case
    using Cons.IH by (simp add: distinct_insert_by set_order_by)
qed

lemma sorted_insert_by:
  assumes total: "\<And>x y. ahead x y \<or> ahead y x"
    and trans: "\<And>x y z. ahead x y \<Longrightarrow> ahead y z \<Longrightarrow> ahead x z"
  shows "sorted_wrt ahead xs \<Longrightarrow> sorted_wrt ahead (insert_by ahead x xs)"
proof (induction xs)
  case Nil
  show ?case by simp
next
  case (Cons y ys)
  show ?case
  proof (cases "ahead x y")
    case True
    have "\<forall>z \<in> set ys. ahead x z"
      using Cons.prems True trans by auto
    then show ?thesis using True Cons.prems by simp
  next
    case False
    then have "ahead y x" using total by blast
    then show ?thesis
      using False Cons by (auto simp: set_insert_by)
  qed
qed

lemma sorted_order_by:
  assumes "\<And>x y. ahead x y \<or> ahead y x"
    and "\<And>x y z. ahead x y \<Longrightarrow> ahead y z \<Longrightarrow> ahead x z"
  shows "sorted_wrt ahead (order_by ahead xs)"
proof (induction xs)
  case Nil
  show ?case by (simp add: order_by_def)
next
  case (Cons x xs)
  have "order_by ahead (x # xs) = insert_by ahead x (order_by ahead xs)"
    by (simp add: order_by_def)
  then show ?case
    using sorted_insert_by [of ahead, OF assms Cons.IH] by simp
qed

subsection \<open>The groups of an aggregation\<close>

lemma groups_member:
  "(h, rest) \<in> set (groups key xs) \<Longrightarrow> h # rest = filter (\<lambda>y. key y = key h) xs"
proof (induction key xs rule: groups.induct)
  case (1 key)
  then show ?case by simp
next
  case (2 key x xs)
  show ?case
  proof (cases "(h, rest) = (x, filter (\<lambda>y. key y = key x) xs)")
    case True
    then show ?thesis by simp
  next
    case False
    then have mem: "(h, rest) \<in> set (groups key (filter (\<lambda>y. key y \<noteq> key x) xs))"
      using "2.prems" by auto
    then have eq: "h # rest = filter (\<lambda>y. key y = key h) (filter (\<lambda>y. key y \<noteq> key x) xs)"
      by (rule "2.IH")
    have "h \<in> set (h # rest)" by simp
    then have "h \<in> set (filter (\<lambda>y. key y \<noteq> key x) xs)"
      unfolding eq by simp
    then have ne: "key h \<noteq> key x" by simp
    have "filter (\<lambda>y. key y = key h) (filter (\<lambda>y. key y \<noteq> key x) xs)
            = filter (\<lambda>y. key y = key h) xs"
      using ne by (auto intro: filter_cong)
    then show ?thesis using eq ne by auto
  qed
qed

lemma groups_head_in:
  assumes "(h, rest) \<in> set (groups key xs)"
  shows "h \<in> set xs"
proof -
  have "h \<in> set (h # rest)" by simp
  then show ?thesis
    unfolding groups_member [OF assms] by simp
qed

lemma groups_keys_subset: "(\<lambda>g. key (fst g)) ` set (groups key xs) \<subseteq> key ` set xs"
  using groups_head_in by fastforce

lemma distinct_groups: "distinct (map (\<lambda>g. key (fst g)) (groups key xs))"
proof (induction key xs rule: groups.induct)
  case (1 key)
  show ?case by simp
next
  case (2 key x xs)
  have "key x \<notin> key ` set (filter (\<lambda>y. key y \<noteq> key x) xs)" by auto
  then have "key x \<notin> (\<lambda>g. key (fst g)) ` set (groups key (filter (\<lambda>y. key y \<noteq> key x) xs))"
    using groups_keys_subset [of key "filter (\<lambda>y. key y \<noteq> key x) xs"] by blast
  then show ?case using "2.IH" by simp
qed

section \<open>Properties of the embedding client\<close>

lemma benchmark_content_bounded:
  "length (content (benchmark_embed_request text)) \<le> 9000"
  by (simp add: benchmark_embed_request_def)

text \<open>
  Claim C9. The claim asks that the content submitted to the embedding service never
  exceeds a fixed bound on both paths. The benchmark path cuts the text to its first 9000
  characters; the interactive path of app.py submits the text as it is, so a text of 9001
  characters reaches the service whole there, while the benchmark path submits 9000.
\<close>

theorem app_get_embedding_submits_untruncated:
  "length (content (app_embed_request (replicate 9001 (CHR ''a'')))) = 9001
   \<and> length (content (benchmark_embed_request (replicate 9001 (CHR ''a'')))) = 9000"
  by (simp add: app_embed_request_def benchmark_embed_request_def)

section \<open>Properties of the confidence\<close>

lemma py_int_floor: "0 \<le> x \<Longrightarrow> py_int x = \<lfloor>x\<rfloor>"
  by (simp add: py_int_def)

lemma round_half_even_nonneg: "0 \<le> x \<Longrightarrow> 0 \<le> round_half_even x"
  by (simp add: round_half_even_def Let_def)

lemma round_half_even_le:
  assumes "x \<le> of_int N"
  shows "round_half_even x \<le> N"
proof -
  have f: "\<lfloor>x\<rfloor> \<le> N" using assms by (simp add: floor_le_iff)
  show ?thesis
  proof (cases "x - of_int \<lfloor>x\<rfloor> < 1 / 2")
    case True
    then show ?thesis using f by (simp add: round_half_even_def Let_def)
  next
    case False
    then have "of_int \<lfloor>x\<rfloor> < x" by simp
    then have "of_int \<lfloor>x\<rfloor> < (of_int N :: real)" using assms by simp
    then have "\<lfloor>x\<rfloor> < N" by simp
    then have "\<lfloor>x\<rfloor> + 1 \<le> N" by simp
    then show ?thesis using f by (simp add: round_half_even_def Let_def)
  qed
qed

lemma float_exponent_small:
  assumes "0 < a" and "a \<le> 100"
  shows "float_exponent a - 52 \<le> 0"
proof (cases "1 \<le> a")
  case True
  have "\<lfloor>a\<rfloor> \<le> 100" using assms(2) by (simp add: floor_le_iff)
  then have "\<lfloor>a\<rfloor> < 2 ^ nat 53" by simp
  then have "bitlen \<lfloor>a\<rfloor> \<le> 53" by (simp add: bitlen_le_iff_power)
  then show ?thesis using True by (simp add: float_exponent_def)
next
  case False
  then show ?thesis
    using bitlen_nonneg [of "\<lceil>1 / a\<rceil> - 1"] by (simp add: float_exponent_def)
qed

text \<open>A real between 0 and 100 rounds to a double between 0 and 100.\<close>

lemma round_double_percent:
  assumes "0 \<le> a" and "a \<le> 100"
  shows "\<exists>p. round_double a = Some p \<and> 0 \<le> p \<and> p \<le> 100"
proof (cases "a = 0")
  case True
  then show ?thesis by (simp add: round_double_def)
next
  case False
  then have pos: "0 < a" using assms(1) by simp
  define q where "q = max (float_exponent a - 52) (- 1074)"
  define n where "n = nat (- q)"
  define m where "m = round_half_even (a * 2 ^ n)"
  have "q \<le> 0" using float_exponent_small [OF pos assms(2)] by (simp add: q_def)
  then have p2: "pow2 q = 1 / 2 ^ n"
    by (cases "q = 0") (simp_all add: pow2_def n_def)
  have m0: "0 \<le> m"
    unfolding m_def using assms(1) by (intro round_half_even_nonneg) simp
  have "a * 2 ^ n \<le> of_int (100 * 2 ^ n)" using assms(2) by simp
  then have m100: "m \<le> 100 * 2 ^ n"
    unfolding m_def by (rule round_half_even_le)
  define v where "v = of_int m / (2 ^ n :: real)"
  have v0: "0 \<le> v" using m0 by (simp add: v_def)
  have "of_int m \<le> (100 * 2 ^ n :: real)"
    using m100 by (metis of_int_le_iff of_int_mult of_int_numeral of_int_power)
  then have v100: "v \<le> 100" by (simp add: v_def field_simps)
  have "(100 :: real) < 2 ^ 1024" by simp
  then have fin: "\<not> 2 ^ 1024 \<le> v" using v100 by linarith
  have "round_double a = Some v"
    using pos fin
    by (simp add: round_double_def Let_def q_def [symmetric] p2 m_def [symmetric] v_def abs_of_pos)
  then show ?thesis using v0 v100 by blast
qed

text \<open>The product with 100 on three doubles: 0.5078125, and the nearest to 0.35 and to 0.29.\<close>

lemma float_mul_65_128: "float_mul (65 / 128) 100 = Some (1625 / 32)"
  by code_simp

lemma float_mul_035: "float_mul (3152519739159347 / 9007199254740992) 100 = Some 35"
  by code_simp

lemma float_mul_029:
  "float_mul (5224175567749775 / 18014398509481984) 100
     = Some (8162774324609023 / 281474976710656)"
  by code_simp

text \<open>
  Claim C5, as stated, fails: the code truncates where the specification rounds. At
  relevance 65/128 (exactly 0.5078125, whose product with 100 is the double 50.78125)
  and no citations the card shows 50, the specification's formula gives 51.
\<close>

theorem confidence_round_counterexample:
  "confidence \<lparr>rid = ''c'', title = None, r_offense = None, decision = None,
      full_text = None, citation_count = 0, found_via = [],
      relevance_score = 65 / 128\<rparr> = Inr 50
   \<and> spec_confidence \<lparr>rid = ''c'', title = None, r_offense = None, decision = None,
      full_text = None, citation_count = 0, found_via = [],
      relevance_score = 65 / 128\<rparr> = Inr 51"
  by (simp add: confidence_def spec_confidence_def float_mul_65_128 py_int_def py_round_def
      round_half_even_def)

text \<open>
  Claim C5, amended. For a relevance score in [0,1] and a citation count that is not
  negative, the float product \<open>relevance_score * 100\<close> is a finite double \<open>p\<close> between 0
  and 100, and the confidence is the minimum of 99 and the integer part of \<open>p\<close>
  (truncated, not rounded) plus five times the citation count; it lies between 0 and 99.
\<close>

theorem confidence_truncates_and_bounded:
  assumes "0 \<le> relevance_score c" and "relevance_score c \<le> 1" and "0 \<le> citation_count c"
  shows "\<exists>p. float_mul (relevance_score c) 100 = Some p
           \<and> confidence c = Inr (min (\<lfloor>p\<rfloor> + citation_count c * 5) 99)
           \<and> 0 \<le> min (\<lfloor>p\<rfloor> + citation_count c * 5) 99
           \<and> min (\<lfloor>p\<rfloor> + citation_count c * 5) 99 \<le> 99"
proof -
  have "0 \<le> relevance_score c * 100" and "relevance_score c * 100 \<le> 100"
    using assms(1,2) by simp_all
  then obtain p where p: "round_double (relevance_score c * 100) = Some p"
    and p0: "0 \<le> p"
    using round_double_percent by blast
  have prod: "float_mul (relevance_score c) 100 = Some p"
    using p by (simp add: float_mul_def)
  have eq: "confidence c = Inr (min (\<lfloor>p\<rfloor> + citation_count c * 5) 99)"
    by (simp add: confidence_def prod py_int_floor [OF p0])
  have "0 \<le> \<lfloor>p\<rfloor>" using p0 by simp
  then have "0 \<le> \<lfloor>p\<rfloor> + citation_count c * 5"
    using assms(3) by simp
  then have "0 \<le> min (\<lfloor>p\<rfloor> + citation_count c * 5) 99" by simp
  then show ?thesis using prod eq by simp
qed

theorem confidence_truncates_and_bounded_witness:
  "confidence \<lparr>rid = ''c'', title = None, r_offense = None, decision = None,
      full_text = None, citation_count = 2, found_via = [],
      relevance_score = 3152519739159347 / 9007199254740992\<rparr> = Inr 45
   \<and> confidence \<lparr>rid = ''c'', title = None, r_offense = None, decision = None,
      full_text = None, citation_count = 0, found_via = [],
      relevance_score = 5224175567749775 / 18014398509481984\<rparr> = Inr 28"
proof -
  let ?c = "\<lparr>rid = ''c'', title = None, r_offense = None, decision = None,
      full_text = None, citation_count = 2, found_via = [],
      relevance_score = 3152519739159347 / 9007199254740992\<rparr>"
  let ?d = "\<lparr>rid = ''c'', title = None, r_offense = None, decision = None,
      full_text = None, citation_count = 0, found_via = [],
      relevance_score = 5224175567749775 / 18014398509481984\<rparr>"
  obtain p where "float_mul (relevance_score ?c) 100 = Some p"
    and c: "confidence ?c = Inr (min (\<lfloor>p\<rfloor> + citation_count ?c * 5) 99)"
    using confidence_truncates_and_bounded [of ?c] by auto
  then have "p = 35" by (simp add: float_mul_035)
  then have first: "confidence ?c = Inr 45" using c by simp
  obtain p' where "float_mul (relevance_score ?d) 100 = Some p'"
    and d: "confidence ?d = Inr (min (\<lfloor>p'\<rfloor> + citation_count ?d * 5) 99)"
    using confidence_truncates_and_bounded [of ?d] by auto
  then have p': "p' = 8162774324609023 / 281474976710656"
    by (simp only: float_mul_029 result.simps option.inject)
  have "\<lfloor>8162774324609023 / 281474976710656 :: real\<rfloor> = 28" by simp
  then have "\<lfloor>p'\<rfloor> = 28" by (simp only: p')
  then have second: "confidence ?d = Inr 28" using d by simp
  show ?thesis using first second by (rule conjI)
qed

section \<open>The cascade\<close>

lemma graph_rag_search_world:
  "snd (graph_rag_search w emb k n f) = w\<lparr>calls := calls w @ [Graph_rag_search f]\<rparr>"
  by (simp add: graph_rag_search_def Let_def split: sum.splits)

lemma vector_only_search_world:
  "snd (vector_only_search w emb n) = w\<lparr>calls := calls w @ [Vector_only_search]\<rparr>"
  by (simp add: vector_only_search_def Let_def split: sum.splits)

lemma cascade_cases:
  assumes gold: "graph_rag_search w emb strat_key 5 True = (g, w1)"
    and silver: "graph_rag_search w1 emb strat_key 5 False = (sv, w2)"
    and bronze: "vector_only_search w2 emb 5 = (bz, w3)"
  shows "cascade w emb strat_key =
           (if g \<noteq> [] then (g, ''Gold'', w1)
            else if sv \<noteq> [] then (sv, ''Silver'', w2)
            else (bz, ''Bronze'', w3))"
  by (simp add: cascade_def gold silver bronze)

text \<open>
  Claim C1. The cascade runs Gold, then Silver, then Bronze, and stops at the first tier
  with a result: when Gold (the graph search with the outcome filter) yields a result,
  the cascade returns Gold's list under the label Gold and no other tier function has
  been called; when Gold is empty and Silver (the graph search without the filter) is
  not, it returns Silver's list; when both are empty, Bronze (the vector search) is
  called and its list, empty or not, is the result.
\<close>

theorem cascade_stops_at_first_nonempty_tier:
  "(let gold = graph_rag_search w emb strat_key 5 True;
        silver = graph_rag_search (snd gold) emb strat_key 5 False;
        bronze = vector_only_search (snd silver) emb 5
    in (fst gold \<noteq> [] \<longrightarrow>
          cascade w emb strat_key = (fst gold, ''Gold'', snd gold)
          \<and> calls (snd gold) = calls w @ [Graph_rag_search True])
     \<and> (fst gold = [] \<and> fst silver \<noteq> [] \<longrightarrow>
          cascade w emb strat_key = (fst silver, ''Silver'', snd silver)
          \<and> calls (snd silver) = calls w @ [Graph_rag_search True, Graph_rag_search False])
     \<and> (fst gold = [] \<and> fst silver = [] \<longrightarrow>
          cascade w emb strat_key = (fst bronze, ''Bronze'', snd bronze)
          \<and> calls (snd bronze)
              = calls w @ [Graph_rag_search True, Graph_rag_search False, Vector_only_search]))"
proof -
  obtain g w1 where gold: "graph_rag_search w emb strat_key 5 True = (g, w1)"
    by (cases "graph_rag_search w emb strat_key 5 True")
  obtain sv w2 where silver: "graph_rag_search w1 emb strat_key 5 False = (sv, w2)"
    by (cases "graph_rag_search w1 emb strat_key 5 False")
  obtain bz w3 where bronze: "vector_only_search w2 emb 5 = (bz, w3)"
    by (cases "vector_only_search w2 emb 5")
  have w1: "w1 = w\<lparr>calls := calls w @ [Graph_rag_search True]\<rparr>"
    using graph_rag_search_world [of w emb strat_key 5 True] gold by simp
  have w2: "w2 = w1\<lparr>calls := calls w1 @ [Graph_rag_search False]\<rparr>"
    using graph_rag_search_world [of w1 emb strat_key 5 False] silver by simp
  have w3: "w3 = w2\<lparr>calls := calls w2 @ [Vector_only_search]\<rparr>"
    using vector_only_search_world [of w2 emb 5] bronze by simp
  have c1: "calls w1 = calls w @ [Graph_rag_search True]" using w1 by simp
  have c2: "calls w2 = calls w @ [Graph_rag_search True, Graph_rag_search False]"
    using w2 c1 by simp
  have c3: "calls w3 = calls w @ [Graph_rag_search True, Graph_rag_search False, Vector_only_search]"
    using w3 c2 by simp
  show ?thesis
    using cascade_cases [OF gold silver bronze] c1 c2 c3
    by (simp add: Let_def gold silver bronze)
qed

text \<open>The tiers on the example stores.\<close>

lemma gold_two_path:
  "fst (graph_rag_search (up two_path_store) [] ''defense'' 5 True) =
     [\<lparr>rid = ''P'', title = Some ''Pope v. State'', r_offense = Some ''Theft'',
        decision = Some ''Reversed'', full_text = None, citation_count = 2,
        found_via = [''Adams v. State''], relevance_score = 9 / 10\<rparr>]"
  by code_simp

lemma gold_two_text_prosecution:
  "fst (graph_rag_search (up two_text_store) [] ''prosecution'' 5 True) = []"
  by code_simp

lemma silver_two_text_prosecution:
  "fst (graph_rag_search (snd (graph_rag_search (up two_text_store) [] ''prosecution'' 5 True)) [] ''prosecution'' 5 False) =
     [\<lparr>rid = ''P'', title = Some ''Pope v. State'', r_offense = Some ''Theft'',
        decision = Some ''Reversed'', full_text = Some ''first'', citation_count = 1,
        found_via = [''Adams v. State''], relevance_score = 9 / 10\<rparr>,
      \<lparr>rid = ''P'', title = Some ''Pope v. State'', r_offense = Some ''Theft'',
        decision = Some ''Reversed'', full_text = Some ''second'', citation_count = 1,
        found_via = [''Adams v. State''], relevance_score = 9 / 10\<rparr>]"
  by code_simp

lemma gold_isolated: "fst (graph_rag_search (up isolated_store) [] ''defense'' 5 True) = []"
  by code_simp

lemma silver_isolated:
  "fst (graph_rag_search (snd (graph_rag_search (up isolated_store) [] ''defense'' 5 True)) [] ''defense'' 5 False) = []"
  by code_simp

lemma calls_up: "calls (up s) = []"
  by (simp add: up_def)

theorem cascade_stops_at_first_nonempty_tier_witness:
  "fst (cascade (up two_path_store) [] ''defense'')
     = fst (graph_rag_search (up two_path_store) [] ''defense'' 5 True)
   \<and> fst (snd (cascade (up two_path_store) [] ''defense'')) = ''Gold''
   \<and> calls (snd (snd (cascade (up two_path_store) [] ''defense''))) = [Graph_rag_search True]
   \<and> fst (snd (cascade (up two_text_store) [] ''prosecution'')) = ''Silver''
   \<and> fst (snd (cascade (up isolated_store) [] ''defense'')) = ''Bronze''"
proof -
  have gold: "cascade (up two_path_store) [] ''defense''
      = (fst (graph_rag_search (up two_path_store) [] ''defense'' 5 True), ''Gold'',
         snd (graph_rag_search (up two_path_store) [] ''defense'' 5 True))
    \<and> calls (snd (graph_rag_search (up two_path_store) [] ''defense'' 5 True))
        = calls (up two_path_store) @ [Graph_rag_search True]"
    using cascade_stops_at_first_nonempty_tier [of "up two_path_store" "[]" "''defense''"]
    by (simp add: Let_def gold_two_path)
  have silver: "fst (snd (cascade (up two_text_store) [] ''prosecution'')) = ''Silver''"
    using cascade_stops_at_first_nonempty_tier [of "up two_text_store" "[]" "''prosecution''"]
    by (simp add: Let_def gold_two_text_prosecution silver_two_text_prosecution)
  have bronze: "fst (snd (cascade (up isolated_store) [] ''defense'')) = ''Bronze''"
    using cascade_stops_at_first_nonempty_tier [of "up isolated_store" "[]" "''defense''"]
    by (simp add: Let_def gold_isolated silver_isolated)
  show ?thesis using gold silver bronze by (simp add: calls_up)
qed

section \<open>Failures of the store\<close>

lemma graph_rag_search_failure:
  assumes "session_run w (\<lambda>s. graph_query s (filter_clause strategy apply_filter)
               NEO4J_VECTOR_INDEX top_k_anchors emb) = Inl e"
  shows "graph_rag_search w emb strategy top_k_anchors apply_filter
           = ([], w\<lparr>calls := calls w @ [Graph_rag_search apply_filter]\<rparr>)"
  using assms by (simp add: graph_rag_search_def Let_def)

lemma vector_only_search_failure:
  assumes "session_run w (\<lambda>s. vector_query s NEO4J_VECTOR_INDEX top_k emb) = Inl e"
  shows "vector_only_search w emb top_k = ([], w\<lparr>calls := calls w @ [Vector_only_search]\<rparr>)"
  using assms by (simp add: vector_only_search_def Let_def)

text \<open>
  Claim C8. A failure of the session or of the query inside a tier function (the store
  unreachable, the index unknown) is caught there: the tier function returns the empty
  list. When the Gold query and the Silver query both fail, the cascade calls Bronze and
  returns what Bronze returns, under the label Bronze.
\<close>

theorem tier_failure_falls_through:
  "(session_run w (\<lambda>s. graph_query s (filter_clause strategy apply_filter)
        NEO4J_VECTOR_INDEX top_k emb) = Inl e \<longrightarrow>
      fst (graph_rag_search w emb strategy top_k apply_filter) = [])
   \<and> (session_run w (\<lambda>s. vector_query s NEO4J_VECTOR_INDEX top_k emb) = Inl e \<longrightarrow>
      fst (vector_only_search w emb top_k) = [])
   \<and> (session_run w (\<lambda>s. graph_query s (filter_clause strategy True)
          NEO4J_VECTOR_INDEX 5 emb) = Inl e1
      \<and> session_run (w\<lparr>calls := calls w @ [Graph_rag_search True]\<rparr>)
          (\<lambda>s. graph_query s (filter_clause strategy False) NEO4J_VECTOR_INDEX 5 emb) = Inl e2 \<longrightarrow>
      cascade w emb strategy
        = (fst (vector_only_search
                  (w\<lparr>calls := calls w @ [Graph_rag_search True, Graph_rag_search False]\<rparr>) emb 5),
           ''Bronze'',
           w\<lparr>calls := calls w @ [Graph_rag_search True, Graph_rag_search False,
                                  Vector_only_search]\<rparr>))"
proof (intro conjI impI)
  assume "session_run w (\<lambda>s. graph_query s (filter_clause strategy apply_filter)
        NEO4J_VECTOR_INDEX top_k emb) = Inl e"
  then show "fst (graph_rag_search w emb strategy top_k apply_filter) = []"
    by (simp add: graph_rag_search_failure)
next
  assume "session_run w (\<lambda>s. vector_query s NEO4J_VECTOR_INDEX top_k emb) = Inl e"
  then show "fst (vector_only_search w emb top_k) = []"
    by (simp add: vector_only_search_failure)
next
  let ?w1 = "w\<lparr>calls := calls w @ [Graph_rag_search True]\<rparr>"
  let ?w2 = "w\<lparr>calls := calls w @ [Graph_rag_search True, Graph_rag_search False]\<rparr>"
  assume both: "session_run w (\<lambda>s. graph_query s (filter_clause strategy True)
          NEO4J_VECTOR_INDEX 5 emb) = Inl e1
      \<and> session_run ?w1
          (\<lambda>s. graph_query s (filter_clause strategy False) NEO4J_VECTOR_INDEX 5 emb) = Inl e2"
  have gold: "graph_rag_search w emb strategy 5 True = ([], ?w1)"
    using both by (simp add: graph_rag_search_failure)
  have silver: "graph_rag_search ?w1 emb strategy 5 False = ([], ?w2)"
    using both by (simp add: graph_rag_search_failure)
  have bronze: "vector_only_search ?w2 emb 5
      = (fst (vector_only_search ?w2 emb 5), ?w2\<lparr>calls := calls ?w2 @ [Vector_only_search]\<rparr>)"
    using vector_only_search_world [of ?w2 emb 5]
    by (metis prod.collapse)
  show "cascade w emb strategy
        = (fst (vector_only_search ?w2 emb 5), ''Bronze'',
           w\<lparr>calls := calls w @ [Graph_rag_search True, Graph_rag_search False,
                                  Vector_only_search]\<rparr>)"
    using cascade_cases [OF gold silver bronze] by simp
qed

lemma bronze_recovering:
  "fst (vector_only_search
     ((recovering two_path_store)\<lparr>calls := calls (recovering two_path_store)
          @ [Graph_rag_search True, Graph_rag_search False]\<rparr>) [] 5)
   = [\<lparr>rid = ''A'', title = Some ''Adams v. State'', r_offense = Some ''Theft'',
        decision = Some ''Dismissed'', full_text = None, citation_count = 0,
        found_via = [], relevance_score = 9 / 10\<rparr>]"
  by code_simp

lemma recovering_fails_first:
  "session_run (recovering s) q = Inl ServiceUnavailable"
  by (simp add: session_run_def recovering_def)

lemma recovering_fails_second:
  "session_run ((recovering s)\<lparr>calls := calls (recovering s) @ [c]\<rparr>) q = Inl ServiceUnavailable"
  by (simp add: session_run_def recovering_def)

theorem tier_failure_falls_through_witness:
  "fst (graph_rag_search (recovering two_path_store) [] ''defense'' 5 True) = []
   \<and> fst (vector_only_search (recovering two_path_store) [] 5) = []
   \<and> fst (cascade (recovering two_path_store) [] ''defense'')
       = [\<lparr>rid = ''A'', title = Some ''Adams v. State'', r_offense = Some ''Theft'',
           decision = Some ''Dismissed'', full_text = None, citation_count = 0,
           found_via = [], relevance_score = 9 / 10\<rparr>]
   \<and> fst (snd (cascade (recovering two_path_store) [] ''defense'')) = ''Bronze''"
  using tier_failure_falls_through [of "recovering two_path_store" "''defense''" True 5 "[]"
      ServiceUnavailable ServiceUnavailable ServiceUnavailable]
  by (simp add: recovering_fails_first recovering_fails_second bronze_recovering)

section \<open>The Bronze tier\<close>

lemma vector_rows_fields:
  "r \<in> set (vector_rows s hits) \<Longrightarrow> citation_count r = 0 \<and> found_via r = []"
  by (auto simp: vector_rows_def)

lemma vector_only_search_results:
  assumes "r \<in> set (fst (vector_only_search w emb top_k))"
  shows "\<exists>s hits. r \<in> set (vector_rows s hits)"
  using assms
  by (fastforce simp: vector_only_search_def Let_def session_run_def vector_query_def
      set_order_by split: if_splits sum.splits)

text \<open>
  Claim C10. Every result of the Bronze tier has citation count 0 and an empty
  \<open>found_via\<close> list, so the citation bonus adds nothing to its confidence: the
  confidence is the integer part of the float product \<open>relevance_score * 100\<close>, capped
  at 99 (and the conversion raises when that product is infinite).
\<close>

theorem bronze_results_have_no_citations:
  "\<forall>r \<in> set (fst (vector_only_search w emb top_k)).
     citation_count r = 0 \<and> found_via r = []
     \<and> confidence r = (case float_mul (relevance_score r) 100 of
                          None \<Rightarrow> Inl OverflowError
                        | Some p \<Rightarrow> Inr (min (py_int p) 99))"
proof
  fix r
  assume "r \<in> set (fst (vector_only_search w emb top_k))"
  then obtain s hits where "r \<in> set (vector_rows s hits)"
    using vector_only_search_results by blast
  then have "citation_count r = 0 \<and> found_via r = []"
    by (rule vector_rows_fields)
  then show "citation_count r = 0 \<and> found_via r = []
     \<and> confidence r = (case float_mul (relevance_score r) 100 of
                          None \<Rightarrow> Inl OverflowError
                        | Some p \<Rightarrow> Inr (min (py_int p) 99))"
    by (simp add: confidence_def Let_def split: option.splits)
qed

lemma bronze_two_text:
  "fst (vector_only_search (up two_text_store) [] 5)
   = [\<lparr>rid = ''A'', title = Some ''Adams v. State'', r_offense = Some ''Theft'',
        decision = Some ''Dismissed'', full_text = None, citation_count = 0,
        found_via = [], relevance_score = 9 / 10\<rparr>]"
  by code_simp

lemma bronze_float:
  "fst (vector_only_search (up float_store) [] 5)
   = [\<lparr>rid = ''A'', title = Some ''Adams v. State'', r_offense = Some ''Theft'',
        decision = Some ''Dismissed'', full_text = None, citation_count = 0,
        found_via = [], relevance_score = 3152519739159347 / 9007199254740992\<rparr>]"
  by code_simp

theorem bronze_results_have_no_citations_witness:
  "\<lparr>rid = ''A'', title = Some ''Adams v. State'', r_offense = Some ''Theft'',
     decision = Some ''Dismissed'', full_text = None, citation_count = 0,
     found_via = [], relevance_score = 3152519739159347 / 9007199254740992\<rparr>
     \<in> set (fst (vector_only_search (up float_store) [] 5))
   \<and> confidence \<lparr>rid = ''A'', title = Some ''Adams v. State'', r_offense = Some ''Theft'',
        decision = Some ''Dismissed'', full_text = None, citation_count = 0,
        found_via = [], relevance_score = 3152519739159347 / 9007199254740992\<rparr> = Inr 35"
proof -
  let ?r = "\<lparr>rid = ''A'', title = Some ''Adams v. State'', r_offense = Some ''Theft'',
     decision = Some ''Dismissed'', full_text = None, citation_count = 0,
     found_via = [], relevance_score = 3152519739159347 / 9007199254740992\<rparr>"
  have mem: "?r \<in> set (fst (vector_only_search (up float_store) [] 5))"
    by (simp add: bronze_float)
  have "confidence ?r = (case float_mul (relevance_score ?r) 100 of
                          None \<Rightarrow> Inl OverflowError
                        | Some p \<Rightarrow> Inr (min (py_int p) 99))"
    using bronze_results_have_no_citations [of "up float_store" "[]" 5] mem by blast
  then have "confidence ?r = Inr 35"
    by (simp add: float_mul_035 py_int_def)
  then show ?thesis using mem by (rule conjI [rotated])
qed

section \<open>Scoring\<close>








section \<open>The graph search\<close>

lemma graph_rag_search_success:
  assumes "driver w" and "db_at w (length (calls w)) = Inr s"
    and "queryNodes s NEO4J_VECTOR_INDEX top_k emb = Inr hits"
  shows "fst (graph_rag_search w emb strategy top_k apply_filter) =
           take 5 (order_by ranks_before (map (aggregate s)
             (groups (group_key s) (graph_rows s (filter_clause strategy apply_filter) hits))))"
  using assms by (simp add: graph_rag_search_def Let_def session_run_def graph_query_def)

lemma graph_rag_search_cases:
  "fst (graph_rag_search w emb strategy top_k apply_filter) = []
   \<or> (\<exists>s hits. driver w \<and> db_at w (length (calls w)) = Inr s
         \<and> queryNodes s NEO4J_VECTOR_INDEX top_k emb = Inr hits)"
  by (cases "driver w"; cases "db_at w (length (calls w))")
     (auto simp: graph_rag_search_def Let_def session_run_def graph_query_def split: sum.splits)

lemma in_concat_map: "y \<in> set (f x) \<Longrightarrow> x \<in> set xs \<Longrightarrow> y \<in> set (concat (map f xs))"
  by auto

lemma in_graph_rows:
  "b \<in> set (graph_rows s cond hits) \<longleftrightarrow>
     (anchorCase b, score b) \<in> set hits
     \<and> precedent b \<in> set (cites_1_2 s (anchorCase b))
     \<and> has_label s ''CASE'' (precedent b) \<and> cond (node_of s (precedent b))
     \<and> precedentText b \<in> set (optional_text_nodes s (precedent b))"
proof (cases b)
  case (fields a sc p t)
  show ?thesis
  proof
    assume "b \<in> set (graph_rows s cond hits)"
    then show "(anchorCase b, score b) \<in> set hits
       \<and> precedent b \<in> set (cites_1_2 s (anchorCase b))
       \<and> has_label s ''CASE'' (precedent b) \<and> cond (node_of s (precedent b))
       \<and> precedentText b \<in> set (optional_text_nodes s (precedent b))"
      by (auto simp: graph_rows_def match_precedents_def)
  next
    assume "(anchorCase b, score b) \<in> set hits
       \<and> precedent b \<in> set (cites_1_2 s (anchorCase b))
       \<and> has_label s ''CASE'' (precedent b) \<and> cond (node_of s (precedent b))
       \<and> precedentText b \<in> set (optional_text_nodes s (precedent b))"
    then have h: "(a, sc) \<in> set hits" and p: "p \<in> set (match_precedents s cond a)"
      and t: "t \<in> set (optional_text_nodes s p)"
      by (simp_all add: fields match_precedents_def)
    let ?inner = "\<lambda>a sc p. map (\<lambda>t. \<lparr>anchorCase = a, score = sc, precedent = p,
                                      precedentText = t\<rparr>) (optional_text_nodes s p)"
    let ?outer = "\<lambda>(a, sc). concat (map (?inner a sc) (match_precedents s cond a))"
    have "b \<in> set (?inner a sc p)"
      using t by (simp add: fields)
    then have "b \<in> set (concat (map (?inner a sc) (match_precedents s cond a)))"
      using p by (rule in_concat_map)
    then have "b \<in> set (?outer (a, sc))" by simp
    then have "b \<in> set (concat (map ?outer hits))"
      using h by (rule in_concat_map)
    then show "b \<in> set (graph_rows s cond hits)"
      by (simp add: graph_rows_def)
  qed
qed

lemma result_is_aggregate:
  assumes "r \<in> set (take n (order_by ahead (map (aggregate s) (groups key rows))))"
  shows "\<exists>b bs. (b, bs) \<in> set (groups key rows) \<and> r = aggregate s (b, bs)"
proof -
  have "r \<in> set (order_by ahead (map (aggregate s) (groups key rows)))"
    using assms by (rule in_set_takeD)
  then have "r \<in> aggregate s ` set (groups key rows)"
    by (simp add: set_order_by)
  then show ?thesis by auto
qed

lemma ranks_before_total: "ranks_before x y \<or> ranks_before y x"
  by (auto simp: ranks_before_def)

lemma ranks_before_trans: "ranks_before x y \<Longrightarrow> ranks_before y z \<Longrightarrow> ranks_before x z"
  by (auto simp: ranks_before_def)

lemma group_key_eq:
  "group_key s y = group_key s b \<longleftrightarrow>
     precedent y = precedent b \<and> text_of s (precedentText y) = text_of s (precedentText b)"
  by (auto simp: group_key_def)

lemma group_scores:
  assumes b: "b \<in> set (graph_rows s cond hits)"
  shows "score ` set (filter (\<lambda>y. group_key s y = group_key s b) (graph_rows s cond hits))
           = {sc. \<exists>a. (a, sc) \<in> set hits \<and> precedent b \<in> set (cites_1_2 s a)}"
    (is "?L = ?R")
proof
  show "?L \<subseteq> ?R"
    by (auto simp: in_graph_rows group_key_eq)
next
  show "?R \<subseteq> ?L"
  proof
    fix sc
    assume "sc \<in> ?R"
    then obtain a where a: "(a, sc) \<in> set hits" "precedent b \<in> set (cites_1_2 s a)"
      by blast
    let ?y = "\<lparr>anchorCase = a, score = sc, precedent = precedent b,
                precedentText = precedentText b\<rparr>"
    have "?y \<in> set (graph_rows s cond hits)"
      using a b by (simp add: in_graph_rows)
    moreover have "group_key s ?y = group_key s b"
      by (simp add: group_key_eq)
    ultimately have "?y \<in> set (filter (\<lambda>y. group_key s y = group_key s b) (graph_rows s cond hits))"
      by simp
    then have "score ?y \<in> ?L" by (rule imageI)
    then show "sc \<in> ?L" by simp
  qed
qed

lemma aggregate_relevance:
  "relevance_score (aggregate s (b, bs)) = Max (score ` set (b # bs))"
proof -
  have "fold max (map score bs) (score b) = Max (set (score b # map score bs))"
    by (rule Max.set_eq_fold [symmetric])
  then show ?thesis by (simp add: aggregate_def)
qed

text \<open>
  Claim C3. The list that \<open>graph_rag_search\<close> returns is sorted by citation count, then
  by relevance score, both descending, and has at most five entries; the relevance score
  of each entry is the greatest similarity score among the anchors whose traversal
  reaches the precedent.
\<close>

theorem graph_rag_search_max_sorted_top5:
  "sorted_wrt (\<lambda>x y. citation_count y < citation_count x
                 \<or> (citation_count x = citation_count y \<and> relevance_score y \<le> relevance_score x))
      (fst (graph_rag_search w emb strategy top_k apply_filter))
   \<and> length (fst (graph_rag_search w emb strategy top_k apply_filter)) \<le> 5
   \<and> (driver w \<and> db_at w (length (calls w)) = Inr s
       \<and> queryNodes s NEO4J_VECTOR_INDEX top_k emb = Inr hits \<longrightarrow>
       (\<forall>r \<in> set (fst (graph_rag_search w emb strategy top_k apply_filter)).
          relevance_score r
            = Max {sc. \<exists>a. (a, sc) \<in> set hits \<and> rid r \<in> set (cites_1_2 s a)}))"
proof (intro conjI impI ballI)
  let ?out = "fst (graph_rag_search w emb strategy top_k apply_filter)"
  have "sorted_wrt ranks_before ?out \<and> length ?out \<le> 5"
    using graph_rag_search_cases [of w emb strategy top_k apply_filter]
  proof
    assume "?out = []"
    then show ?thesis by simp
  next
    assume "\<exists>s hits. driver w \<and> db_at w (length (calls w)) = Inr s
         \<and> queryNodes s NEO4J_VECTOR_INDEX top_k emb = Inr hits"
    then obtain s' hits' where "driver w" "db_at w (length (calls w)) = Inr s'"
        "queryNodes s' NEO4J_VECTOR_INDEX top_k emb = Inr hits'"
      by blast
    then have out: "?out = take 5 (order_by ranks_before (map (aggregate s')
             (groups (group_key s') (graph_rows s' (filter_clause strategy apply_filter) hits'))))"
      by (rule graph_rag_search_success)
    have "sorted_wrt ranks_before (order_by ranks_before xs)" for xs
      using ranks_before_total ranks_before_trans by (rule sorted_order_by)
    then show ?thesis
      unfolding out by (simp add: sorted_wrt_take)
  qed
  then show "sorted_wrt (\<lambda>x y. citation_count y < citation_count x
                 \<or> (citation_count x = citation_count y \<and> relevance_score y \<le> relevance_score x)) ?out"
    and "length ?out \<le> 5"
    by (simp_all add: ranks_before_def [abs_def])
next
  fix r
  let ?rows = "graph_rows s (filter_clause strategy apply_filter) hits"
  assume run: "driver w \<and> db_at w (length (calls w)) = Inr s
       \<and> queryNodes s NEO4J_VECTOR_INDEX top_k emb = Inr hits"
    and r: "r \<in> set (fst (graph_rag_search w emb strategy top_k apply_filter))"
  have "r \<in> set (take 5 (order_by ranks_before (map (aggregate s)
             (groups (group_key s) ?rows))))"
    using r run by (simp add: graph_rag_search_success)
  then obtain b bs where g: "(b, bs) \<in> set (groups (group_key s) ?rows)"
    and agg: "r = aggregate s (b, bs)"
    using result_is_aggregate by blast
  have grp: "b # bs = filter (\<lambda>y. group_key s y = group_key s b) ?rows"
    using g by (rule groups_member)
  have b: "b \<in> set ?rows" using g by (rule groups_head_in)
  have "relevance_score r = Max (score ` set (b # bs))"
    unfolding agg by (rule aggregate_relevance)
  also have "score ` set (b # bs)
      = {sc. \<exists>a. (a, sc) \<in> set hits \<and> precedent b \<in> set (cites_1_2 s a)}"
    unfolding grp using b by (rule group_scores)
  also have "precedent b = rid r"
    by (simp add: agg aggregate_def)
  finally show "relevance_score r
      = Max {sc. \<exists>a. (a, sc) \<in> set hits \<and> rid r \<in> set (cites_1_2 s a)}" .
qed

lemma up_runs: "driver (up s) \<and> db_at (up s) (length (calls (up s))) = Inr s"
  by (simp add: up_def)

lemma hits_two_path: "queryNodes two_path_store NEO4J_VECTOR_INDEX 5 [] = Inr [(''A'', 9 / 10)]"
  by code_simp

theorem graph_rag_search_max_sorted_top5_witness:
  "\<lparr>rid = ''P'', title = Some ''Pope v. State'', r_offense = Some ''Theft'',
     decision = Some ''Reversed'', full_text = None, citation_count = 2,
     found_via = [''Adams v. State''], relevance_score = 9 / 10\<rparr>
     \<in> set (fst (graph_rag_search (up two_path_store) [] ''defense'' 5 True))
   \<and> Max {sc. \<exists>a. (a, sc) \<in> set [(''A'', 9 / 10 :: real)]
               \<and> ''P'' \<in> set (cites_1_2 two_path_store a)} = 9 / 10"
proof -
  let ?r = "\<lparr>rid = ''P'', title = Some ''Pope v. State'', r_offense = Some ''Theft'',
     decision = Some ''Reversed'', full_text = None, citation_count = 2,
     found_via = [''Adams v. State''], relevance_score = 9 / 10\<rparr>"
  have mem: "?r \<in> set (fst (graph_rag_search (up two_path_store) [] ''defense'' 5 True))"
    by (simp add: gold_two_path)
  have "relevance_score ?r
      = Max {sc. \<exists>a. (a, sc) \<in> set [(''A'', 9 / 10 :: real)]
                  \<and> rid ?r \<in> set (cites_1_2 two_path_store a)}"
    using graph_rag_search_max_sorted_top5 [of "up two_path_store" "[]" "''defense''" 5 True
        two_path_store "[(''A'', 9 / 10)]"] up_runs [of two_path_store] hits_two_path mem
    by blast
  then have "Max {sc. \<exists>a. (a, sc) \<in> set [(''A'', 9 / 10 :: real)]
               \<and> ''P'' \<in> set (cites_1_2 two_path_store a)} = 9 / 10"
    by simp
  then show ?thesis using mem by (rule conjI [rotated])
qed

section \<open>Duplicates in the output of the graph search\<close>

lemma distinct_map_through:
  "distinct (map (\<lambda>x. G (h x)) xs) \<Longrightarrow> distinct (map h xs)"
  by (induction xs) auto

lemma aggregate_id_text:
  "(rid (aggregate s g), full_text (aggregate s g))
     = (precedent (fst g), text_of s (precedentText (fst g)))"
  by (cases g) (simp add: aggregate_def)

lemma group_key_through:
  "group_key s b =
     (\<lambda>(p, t). (p, n_name (node_of s p), n_offense (node_of s p),
                n_decisionSummary (node_of s p), t))
       (precedent b, text_of s (precedentText b))"
  by (simp add: group_key_def)

lemma distinct_id_text_aggregates:
  "distinct (map (\<lambda>r. (rid r, full_text r)) (map (aggregate s) (groups (group_key s) rows)))"
proof -
  have "distinct (map (\<lambda>g. group_key s (fst g)) (groups (group_key s) rows))"
    by (rule distinct_groups)
  then have "distinct (map (\<lambda>g. (\<lambda>(p, t). (p, n_name (node_of s p), n_offense (node_of s p),
                n_decisionSummary (node_of s p), t))
       (precedent (fst g), text_of s (precedentText (fst g)))) (groups (group_key s) rows))"
    by (simp only: group_key_through)
  then have "distinct (map (\<lambda>g. (precedent (fst g), text_of s (precedentText (fst g))))
                 (groups (group_key s) rows))"
    by (rule distinct_map_through)
  then show ?thesis
    by (simp add: comp_def aggregate_id_text)
qed

lemma distinct_take_map: "distinct (map f xs) \<Longrightarrow> distinct (map f (take n xs))"
  by (simp add: take_map [symmetric])

lemma distinct_id_text_output:
  "distinct (map (\<lambda>r. (rid r, full_text r))
     (fst (graph_rag_search w emb strategy top_k apply_filter)))"
  using graph_rag_search_cases [of w emb strategy top_k apply_filter]
proof
  assume "fst (graph_rag_search w emb strategy top_k apply_filter) = []"
  then show ?thesis by simp
next
  assume "\<exists>s hits. driver w \<and> db_at w (length (calls w)) = Inr s
         \<and> queryNodes s NEO4J_VECTOR_INDEX top_k emb = Inr hits"
  then obtain s hits where "driver w" "db_at w (length (calls w)) = Inr s"
      "queryNodes s NEO4J_VECTOR_INDEX top_k emb = Inr hits"
    by blast
  then have out: "fst (graph_rag_search w emb strategy top_k apply_filter)
      = take 5 (order_by ranks_before (map (aggregate s)
             (groups (group_key s) (graph_rows s (filter_clause strategy apply_filter) hits))))"
    by (rule graph_rag_search_success)
  show ?thesis
    unfolding out
    by (intro distinct_take_map) (simp only: distinct_order_by distinct_id_text_aggregates)
qed

lemma optional_text_single:
  assumes same: "\<forall>t \<in> set (text_nodes s p). \<forall>t' \<in> set (text_nodes s p).
                   n_text (node_of s t) = n_text (node_of s t')"
    and "x \<in> set (optional_text_nodes s p)" and "y \<in> set (optional_text_nodes s p)"
  shows "text_of s x = text_of s y"
proof (cases "text_nodes s p = []")
  case True
  then have "x = None" and "y = None"
    using assms(2,3) by (simp_all add: optional_text_nodes_def)
  then show ?thesis by simp
next
  case False
  then obtain t t' where t: "t \<in> set (text_nodes s p)" "x = Some t"
    and t': "t' \<in> set (text_nodes s p)" "y = Some t'"
    using assms(2,3) by (auto simp: optional_text_nodes_def)
  have "n_text (node_of s t) = n_text (node_of s t')"
    using same t(1) t'(1) by blast
  then show ?thesis by (simp add: t(2) t'(2) text_of_def)
qed

text \<open>
  Claim C7, as stated, fails: the text of the precedent is one of the grouping
  expressions of the query, so a precedent with two text nodes of different text makes
  two groups. On the second example store the Gold tier returns the precedent \<open>P\<close> twice.
\<close>

theorem graph_rag_search_duplicate_id_counterexample:
  "map rid (fst (graph_rag_search (up two_text_store) [] ''defense'' 5 True)) = [''P'', ''P'']
   \<and> map full_text (fst (graph_rag_search (up two_text_store) [] ''defense'' 5 True))
       = [Some ''first'', Some ''second'']"
  by code_simp

text \<open>
  Claim C7, amended. In a single output of \<open>graph_rag_search\<close> no pair of case id and
  full text appears twice, however many anchors or paths reach the precedent; and when
  the text nodes attached to each precedent all carry the same text (as when there is at
  most one), no case id appears twice.
\<close>

theorem graph_rag_search_no_duplicate_id_text:
  "distinct (map (\<lambda>r. (rid r, full_text r))
      (fst (graph_rag_search w emb strategy top_k apply_filter)))
   \<and> (driver w \<and> db_at w (length (calls w)) = Inr s
       \<and> (\<forall>p. \<forall>t \<in> set (text_nodes s p). \<forall>t' \<in> set (text_nodes s p).
              n_text (node_of s t) = n_text (node_of s t')) \<longrightarrow>
       distinct (map rid (fst (graph_rag_search w emb strategy top_k apply_filter))))"
proof (intro conjI impI)
  let ?out = "fst (graph_rag_search w emb strategy top_k apply_filter)"
  show d: "distinct (map (\<lambda>r. (rid r, full_text r)) ?out)"
    by (rule distinct_id_text_output)
  assume run: "driver w \<and> db_at w (length (calls w)) = Inr s
       \<and> (\<forall>p. \<forall>t \<in> set (text_nodes s p). \<forall>t' \<in> set (text_nodes s p).
              n_text (node_of s t) = n_text (node_of s t'))"
  show "distinct (map rid ?out)"
  proof (cases "queryNodes s NEO4J_VECTOR_INDEX top_k emb")
    case (Inl e)
    then have "?out = []"
      using run by (simp add: graph_rag_search_def Let_def session_run_def graph_query_def)
    then show ?thesis by simp
  next
    case (Inr hits)
    let ?rows = "graph_rows s (filter_clause strategy apply_filter) hits"
    have out: "?out = take 5 (order_by ranks_before (map (aggregate s)
             (groups (group_key s) ?rows)))"
      using run Inr by (simp add: graph_rag_search_success)
    have text_by_id: "full_text r = full_text r'"
      if r: "r \<in> set ?out" and r': "r' \<in> set ?out" and same: "rid r = rid r'" for r r'
    proof -
      obtain b bs where g: "(b, bs) \<in> set (groups (group_key s) ?rows)"
        and agg: "r = aggregate s (b, bs)"
        using r result_is_aggregate unfolding out by blast
      obtain b' bs' where g': "(b', bs') \<in> set (groups (group_key s) ?rows)"
        and agg': "r' = aggregate s (b', bs')"
        using r' result_is_aggregate unfolding out by blast
      have b: "precedentText b \<in> set (optional_text_nodes s (precedent b))"
        using groups_head_in [OF g] by (simp add: in_graph_rows)
      have b': "precedentText b' \<in> set (optional_text_nodes s (precedent b'))"
        using groups_head_in [OF g'] by (simp add: in_graph_rows)
      have p: "precedent b = precedent b'"
        using same by (simp add: agg agg' aggregate_def)
      have same_text: "\<forall>t \<in> set (text_nodes s (precedent b')).
            \<forall>t' \<in> set (text_nodes s (precedent b')).
              n_text (node_of s t) = n_text (node_of s t')"
        using run by blast
      have b_at: "precedentText b \<in> set (optional_text_nodes s (precedent b'))"
        using b by (simp only: p)
      have "text_of s (precedentText b) = text_of s (precedentText b')"
        using same_text b_at b' by (rule optional_text_single)
      then show ?thesis by (simp add: agg agg' aggregate_def)
    qed
    have inj: "inj_on fst (set (map (\<lambda>r. (rid r, full_text r)) ?out))"
    proof (rule inj_onI)
      fix x y
      assume "x \<in> set (map (\<lambda>r. (rid r, full_text r)) ?out)"
        and "y \<in> set (map (\<lambda>r. (rid r, full_text r)) ?out)" and eq: "fst x = fst y"
      then obtain r r' where "r \<in> set ?out" "x = (rid r, full_text r)"
        "r' \<in> set ?out" "y = (rid r', full_text r')"
        by (auto simp only: set_map)
      then show "x = y" using eq text_by_id [of r r'] by simp
    qed
    have "distinct (map fst (map (\<lambda>r. (rid r, full_text r)) ?out))"
      using d inj by (simp only: distinct_map) 
    then show ?thesis by (simp only: map_map comp_def fst_conv)
  qed
qed

lemma two_path_no_text: "text_nodes two_path_store p = []"
  by (simp add: text_nodes_def two_path_store_def)

theorem graph_rag_search_no_duplicate_id_text_witness:
  "fst (graph_rag_search (up two_path_store) [] ''defense'' 5 True) \<noteq> []
   \<and> distinct (map rid (fst (graph_rag_search (up two_path_store) [] ''defense'' 5 True)))"
proof -
  have ne: "fst (graph_rag_search (up two_path_store) [] ''defense'' 5 True) \<noteq> []"
    by (simp add: gold_two_path)
  show ?thesis
    using graph_rag_search_no_duplicate_id_text [of "up two_path_store" "[]" "''defense''" 5 True
        two_path_store] up_runs [of two_path_store] ne
    by (simp add: two_path_no_text)
qed

section \<open>The citation count\<close>

lemma length_filter_concat:
  "length (filter P (concat xss)) = sum_list (map (\<lambda>xs. length (filter P xs)) xss)"
  by (induction xss) simp_all

lemma count_list_map_filter:
  "count_list (map g xs) t = length (filter (\<lambda>x. g x = t) xs)"
  by (induction xs) simp_all

lemma count_list_filter:
  "count_list (filter P xs) p = (if P p then count_list xs p else 0)"
  by (induction xs) auto

lemma rows_of_precedent:
  "length (filter (\<lambda>y. precedent y = p \<and> text_of s (precedentText y) = t)
      (map (\<lambda>t'. \<lparr>anchorCase = a, score = sc, precedent = p', precedentText = t'\<rparr>)
         (optional_text_nodes s p')))
   = (if p' = p then count_list (map (text_of s) (optional_text_nodes s p)) t else 0)"
  by (simp add: filter_map comp_def count_list_map_filter)

lemma rows_of_anchor:
  "length (filter (\<lambda>y. precedent y = p \<and> text_of s (precedentText y) = t)
      (concat (map (\<lambda>p'. map (\<lambda>t'. \<lparr>anchorCase = a, score = sc, precedent = p',
                                      precedentText = t'\<rparr>) (optional_text_nodes s p')) ps)))
   = count_list ps p * count_list (map (text_of s) (optional_text_nodes s p)) t"
proof (induction ps)
  case Nil
  show ?case by simp
next
  case (Cons q ps)
  show ?case
    using Cons.IH rows_of_precedent [of p s t a sc q]
    by (simp add: algebra_simps)
qed

lemma rows_of_group:
  "length (filter (\<lambda>y. precedent y = p \<and> text_of s (precedentText y) = t)
      (graph_rows s cond hits))
   = (\<Sum>(a, sc)\<leftarrow>hits. count_list (match_precedents s cond a) p)
       * count_list (map (text_of s) (optional_text_nodes s p)) t"
proof (induction hits)
  case Nil
  show ?case by (simp add: graph_rows_def)
next
  case (Cons h hits)
  obtain a sc where h: "h = (a, sc)" by (cases h)
  have "graph_rows s cond (h # hits)
      = concat (map (\<lambda>p'. map (\<lambda>t'. \<lparr>anchorCase = a, score = sc, precedent = p',
                                      precedentText = t'\<rparr>) (optional_text_nodes s p'))
                 (match_precedents s cond a))
        @ graph_rows s cond hits"
    by (simp add: graph_rows_def h)
  then show ?case
    using Cons.IH rows_of_anchor [of p s t a sc "match_precedents s cond a"]
    by (simp add: h algebra_simps)
qed

lemma count_match_precedents:
  assumes "has_label s ''CASE'' p" and "cond (node_of s p)"
  shows "count_list (match_precedents s cond a) p = count_list (cites_1_2 s a) p"
  using assms by (simp add: match_precedents_def count_list_filter)

lemma citation_count_rows:
  assumes "driver w" and "db_at w (length (calls w)) = Inr s"
    and "queryNodes s NEO4J_VECTOR_INDEX top_k emb = Inr hits"
    and "r \<in> set (fst (graph_rag_search w emb strategy top_k apply_filter))"
  shows "citation_count r
           = int ((\<Sum>(a, sc)\<leftarrow>hits. count_list (cites_1_2 s a) (rid r))
                  * count_list (map (text_of s) (optional_text_nodes s (rid r))) (full_text r))
         \<and> 1 \<le> citation_count r"
proof -
  let ?cond = "filter_clause strategy apply_filter"
  let ?rows = "graph_rows s ?cond hits"
  have "r \<in> set (take 5 (order_by ranks_before (map (aggregate s)
             (groups (group_key s) ?rows))))"
    using assms by (simp add: graph_rag_search_success)
  then obtain b bs where g: "(b, bs) \<in> set (groups (group_key s) ?rows)"
    and agg: "r = aggregate s (b, bs)"
    using result_is_aggregate by blast
  have rid_eq: "rid r = precedent b" and text_eq: "full_text r = text_of s (precedentText b)"
    and cnt: "citation_count r = int (length (b # bs))"
    by (simp_all add: agg aggregate_def)
  have "b \<in> set ?rows" using g by (rule groups_head_in)
  then have ok: "has_label s ''CASE'' (precedent b)" "?cond (node_of s (precedent b))"
    by (simp_all add: in_graph_rows)
  have "b # bs = filter (\<lambda>y. group_key s y = group_key s b) ?rows"
    using g by (rule groups_member)
  also have "\<dots> = filter (\<lambda>y. precedent y = precedent b
                       \<and> text_of s (precedentText y) = text_of s (precedentText b)) ?rows"
    by (simp only: group_key_eq)
  finally have "length (b # bs)
      = (\<Sum>(a, sc)\<leftarrow>hits. count_list (match_precedents s ?cond a) (precedent b))
          * count_list (map (text_of s) (optional_text_nodes s (precedent b)))
              (text_of s (precedentText b))"
    by (simp only: rows_of_group)
  also have "(\<Sum>(a, sc)\<leftarrow>hits. count_list (match_precedents s ?cond a) (precedent b))
      = (\<Sum>(a, sc)\<leftarrow>hits. count_list (cites_1_2 s a) (precedent b))"
    by (simp only: count_match_precedents [of s "precedent b" ?cond, OF ok])
  finally have "citation_count r
      = int ((\<Sum>(a, sc)\<leftarrow>hits. count_list (cites_1_2 s a) (rid r))
             * count_list (map (text_of s) (optional_text_nodes s (rid r))) (full_text r))"
    by (simp only: cnt rid_eq text_eq)
  moreover have "1 \<le> citation_count r"
    by (simp add: cnt)
  ultimately show ?thesis by blast
qed

text \<open>
  Claim C2, as stated, fails: \<open>count(anchorCase)\<close> counts rows, one for every path, not
  distinct anchors. On the first example store the one anchor \<open>A\<close> reaches \<open>P\<close> over
  two paths (directly and through \<open>B\<close>), and the citation count of \<open>P\<close> is 2 where the
  number of distinct anchors reaching it is 1.
\<close>

theorem citation_count_counts_paths_counterexample:
  "map (\<lambda>r. (rid r, citation_count r))
       (fst (graph_rag_search (up two_path_store) [] ''defense'' 5 False))
     = [(''P'', 2), (''B'', 1)]
   \<and> queryNodes two_path_store NEO4J_VECTOR_INDEX 5 [] = Inr [(''A'', 9 / 10)]
   \<and> spec_citation_count two_path_store [(''A'', 9 / 10)] ''P'' = 1"
  by code_simp

lemma single_text_count:
  assumes "length (text_nodes s p) \<le> 1" and "t \<in> set (optional_text_nodes s p)"
  shows "count_list (map (text_of s) (optional_text_nodes s p)) (text_of s t) = 1"
proof (cases "text_nodes s p")
  case Nil
  then show ?thesis using assms(2) by (simp add: optional_text_nodes_def)
next
  case (Cons n ns)
  then have "ns = []" using assms(1) by simp
  then show ?thesis using assms(2) Cons by (simp add: optional_text_nodes_def)
qed

text \<open>
  Claim C2, amended. The citation count of every result of \<open>graph_rag_search\<close> whose
  precedent has at most one text node is the number of paths of one or two citations
  that lead from the anchors to the precedent: an anchor that reaches the precedent over
  k distinct paths contributes k, not 1. It is an integer, and at least 1.
\<close>

theorem citation_count_counts_paths:
  assumes "driver w" and "db_at w (length (calls w)) = Inr s"
    and "queryNodes s NEO4J_VECTOR_INDEX top_k emb = Inr hits"
    and "r \<in> set (fst (graph_rag_search w emb strategy top_k apply_filter))"
    and "length (text_nodes s (rid r)) \<le> 1"
  shows "citation_count r = int (\<Sum>(a, sc)\<leftarrow>hits. count_list (cites_1_2 s a) (rid r))
         \<and> 1 \<le> citation_count r"
proof -
  let ?rows = "graph_rows s (filter_clause strategy apply_filter) hits"
  have "r \<in> set (take 5 (order_by ranks_before (map (aggregate s)
             (groups (group_key s) ?rows))))"
    using assms by (simp add: graph_rag_search_success)
  then obtain b bs where g: "(b, bs) \<in> set (groups (group_key s) ?rows)"
    and agg: "r = aggregate s (b, bs)"
    using result_is_aggregate by blast
  have fields: "rid r = precedent b" "full_text r = text_of s (precedentText b)"
    by (simp_all add: agg aggregate_def)
  have "precedentText b \<in> set (optional_text_nodes s (precedent b))"
    using groups_head_in [OF g] by (simp add: in_graph_rows)
  then have "count_list (map (text_of s) (optional_text_nodes s (rid r))) (full_text r) = 1"
    using assms(5) unfolding fields by (intro single_text_count)
  then show ?thesis
    using citation_count_rows [OF assms(1-4)] by simp
qed

theorem citation_count_counts_paths_witness:
  "\<lparr>rid = ''P'', title = Some ''Pope v. State'', r_offense = Some ''Theft'',
     decision = Some ''Reversed'', full_text = None, citation_count = 2,
     found_via = [''Adams v. State''], relevance_score = 9 / 10\<rparr>
     \<in> set (fst (graph_rag_search (up two_path_store) [] ''defense'' 5 True))
   \<and> int (\<Sum>(a, sc)\<leftarrow>[(''A'', 9 / 10 :: real)]. count_list (cites_1_2 two_path_store a) ''P'') = 2"
proof -
  let ?r = "\<lparr>rid = ''P'', title = Some ''Pope v. State'', r_offense = Some ''Theft'',
     decision = Some ''Reversed'', full_text = None, citation_count = 2,
     found_via = [''Adams v. State''], relevance_score = 9 / 10\<rparr>"
  have mem: "?r \<in> set (fst (graph_rag_search (up two_path_store) [] ''defense'' 5 True))"
    by (simp add: gold_two_path)
  have one: "length (text_nodes two_path_store (rid ?r)) \<le> 1"
    by (simp add: two_path_no_text)
  have "citation_count ?r
      = int (\<Sum>(a, sc)\<leftarrow>[(''A'', 9 / 10 :: real)]. count_list (cites_1_2 two_path_store a) (rid ?r))"
    using citation_count_counts_paths [OF conjunct1 [OF up_runs] conjunct2 [OF up_runs]
        hits_two_path mem one] by (rule conjunct1)
  then have "int (\<Sum>(a, sc)\<leftarrow>[(''A'', 9 / 10 :: real)]. count_list (cites_1_2 two_path_store a) ''P'') = 2"
    by simp
  then show ?thesis using mem by (rule conjI [rotated])
qed

section \<open>Retrieval in the benchmark\<close>

lemma in_bench_graph_rows:
  assumes "(a, sc, p) \<in> set (bench_graph_rows s anchors)"
  shows "(a, sc) \<in> set anchors \<and> p \<in> set (cites_1_2 s a)"
  using assms by (auto simp: bench_graph_rows_def)

lemma bench_vector_query_ids:
  assumes "bench_vector_query s index_name emb original_id = Inr rows" and "r \<in> set rows"
  shows "s_id r \<noteq> original_id"
proof (cases "queryNodes s index_name 10 emb")
  case (Inl e)
  then show ?thesis using assms by (simp add: bench_vector_query_def)
next
  case (Inr hits)
  let ?kept = "filter (\<lambda>(p, sc). p \<noteq> original_id \<and> n_offense (node_of s p) \<noteq> None) hits"
  let ?made = "map (\<lambda>(p, sc). \<lparr>s_id = p, s_offense = n_offense (node_of s p), s_score = sc\<rparr>) ?kept"
  have "rows = take 10 (order_by (\<lambda>x y. s_score y \<le> s_score x) ?made)"
    using assms(1) Inr by (simp add: bench_vector_query_def Let_def)
  then have "r \<in> set (order_by (\<lambda>x y. s_score y \<le> s_score x) ?made)"
    using assms(2) by (auto dest: in_set_takeD)
  then have "r \<in> set ?made" by (simp only: set_order_by)
  then show ?thesis by auto
qed

lemma bench_graph_query_ids:
  assumes "bench_graph_query s index_name emb original_id = Inr rows" and "r \<in> set rows"
    and hits: "queryNodes s index_name 50 emb = Inr hits"
  shows "\<exists>(a, sc) \<in> set hits. a \<noteq> original_id \<and> s_id r \<in> set (cites_1_2 s a)"
proof -
  let ?anchors = "filter (\<lambda>(a, sc). a \<noteq> original_id) hits"
  let ?key = "\<lambda>(a, sc, p). (p, n_offense (node_of s p))"
  let ?groups = "groups ?key (bench_graph_rows s ?anchors)"
  have "rows = take 10 (order_by (\<lambda>x y. s_score y \<le> s_score x)
                  (map (bench_aggregate s) ?groups))"
    using assms(1) hits by (simp add: bench_graph_query_def Let_def)
  then have "r \<in> set (order_by (\<lambda>x y. s_score y \<le> s_score x) (map (bench_aggregate s) ?groups))"
    using assms(2) by (auto dest: in_set_takeD)
  then have "r \<in> bench_aggregate s ` set ?groups"
    by (simp only: set_order_by set_map)
  then obtain h bs where g: "(h, bs) \<in> set ?groups" and r: "r = bench_aggregate s (h, bs)"
    by auto
  obtain a sc p where h: "h = (a, sc, p)" by (cases h)
  have "(a, sc, p) \<in> set (bench_graph_rows s ?anchors)"
    using groups_head_in [OF g] by (simp only: h)
  then have "(a, sc) \<in> set ?anchors" and "p \<in> set (cites_1_2 s a)"
    using in_bench_graph_rows by blast+
  moreover have "s_id r = p" by (simp add: r h bench_aggregate_def)
  ultimately show ?thesis by auto
qed

text \<open>
  Claim C6, as stated, fails in the graph mode: the query keeps the source case out of
  the anchors, not out of the precedents. In the benchmark store the anchor \<open>A\<close> cites
  the source \<open>S\<close>, and the graph retrieval for \<open>S\<close> returns \<open>S\<close> itself.
\<close>

theorem retrieve_cases_returns_source_counterexample:
  "retrieve_cases (Inr bench_store) [] ''S'' True
     = Inr [\<lparr>item_id = ''G'', item_offense = Some ''Theft''\<rparr>,
            \<lparr>item_id = ''S'', item_offense = Some ''Theft''\<rparr>]"
  by code_simp

text \<open>
  Claim C6, amended. The source case is excluded from the hits of the vector index in
  both modes. In the baseline mode the hits are the results, so no returned id is the id
  of the source case. In the graph mode the hits are the anchors: every returned id is
  reached over one or two citations from a hit other than the source case.
\<close>

theorem retrieve_cases_excludes_source_hit:
  "(retrieve_cases db emb original_id False = Inr items \<longrightarrow>
      (\<forall>it \<in> set items. item_id it \<noteq> original_id))
   \<and> (retrieve_cases (Inr s) emb original_id True = Inr items
       \<and> queryNodes s NEO4J_VECTOR_INDEX 50 emb = Inr hits \<longrightarrow>
      (\<forall>it \<in> set items. \<exists>(a, sc) \<in> set hits.
          a \<noteq> original_id \<and> item_id it \<in> set (cites_1_2 s a)))"
proof (intro conjI impI ballI)
  fix it
  assume run: "retrieve_cases db emb original_id False = Inr items" and it: "it \<in> set items"
  from run obtain s' rows where "db = Inr s'"
    and rows: "bench_vector_query s' NEO4J_VECTOR_INDEX emb original_id = Inr rows"
    and items: "items = map (\<lambda>r. \<lparr>item_id = s_id r, item_offense = s_offense r\<rparr>) rows"
    by (auto simp: retrieve_cases_def split: sum.splits)
  from it items obtain r where "r \<in> set rows" and "item_id it = s_id r"
    by auto
  then show "item_id it \<noteq> original_id"
    using bench_vector_query_ids [OF rows] by simp
next
  fix it
  assume run: "retrieve_cases (Inr s) emb original_id True = Inr items
       \<and> queryNodes s NEO4J_VECTOR_INDEX 50 emb = Inr hits"
    and it: "it \<in> set items"
  from run obtain rows
    where rows: "bench_graph_query s NEO4J_VECTOR_INDEX emb original_id = Inr rows"
    and items: "items = map (\<lambda>r. \<lparr>item_id = s_id r, item_offense = s_offense r\<rparr>) rows"
    by (auto simp: retrieve_cases_def split: sum.splits)
  from it items obtain r where r: "r \<in> set rows" and id: "item_id it = s_id r"
    by auto
  have "\<exists>(a, sc) \<in> set hits. a \<noteq> original_id \<and> s_id r \<in> set (cites_1_2 s a)"
    using rows r run [THEN conjunct2] by (rule bench_graph_query_ids)
  then show "\<exists>(a, sc) \<in> set hits. a \<noteq> original_id \<and> item_id it \<in> set (cites_1_2 s a)"
    by (simp only: id)
qed

lemma baseline_bench_store:
  "retrieve_cases (Inr bench_store) [] ''S'' False
     = Inr [\<lparr>item_id = ''A'', item_offense = Some ''Arson''\<rparr>]"
  by code_simp

lemma hits_bench_store:
  "queryNodes bench_store NEO4J_VECTOR_INDEX 50 [] = Inr [(''S'', 1), (''A'', 4 / 5)]"
  by code_simp

lemma graph_bench_store:
  "retrieve_cases (Inr bench_store) [] ''S'' True
     = Inr [\<lparr>item_id = ''G'', item_offense = Some ''Theft''\<rparr>,
            \<lparr>item_id = ''S'', item_offense = Some ''Theft''\<rparr>]"
  by code_simp

theorem retrieve_cases_excludes_source_hit_witness:
  "retrieve_cases (Inr bench_store) [] ''S'' False
     = Inr [\<lparr>item_id = ''A'', item_offense = Some ''Arson''\<rparr>]
   \<and> item_id \<lparr>item_id = ''A'', item_offense = Some ''Arson''\<rparr> \<noteq> ''S''
   \<and> (\<exists>(a, sc) \<in> set [(''S'', 1 :: real), (''A'', 4 / 5)].
         a \<noteq> ''S'' \<and> ''G'' \<in> set (cites_1_2 bench_store a))"
proof -
  have "\<forall>it \<in> set [\<lparr>item_id = ''A'', item_offense = Some ''Arson''\<rparr>]. item_id it \<noteq> ''S''"
    using retrieve_cases_excludes_source_hit [of "Inr bench_store" "[]" "''S''"
      "[\<lparr>item_id = ''A'', item_offense = Some ''Arson''\<rparr>]"] baseline_bench_store
    by blast
  then have base: "item_id \<lparr>item_id = ''A'', item_offense = Some ''Arson''\<rparr> \<noteq> ''S''"
    by simp
  have "\<forall>it \<in> set [\<lparr>item_id = ''G'', item_offense = Some ''Theft''\<rparr>,
                    \<lparr>item_id = ''S'', item_offense = Some ''Theft''\<rparr>].
        \<exists>(a, sc) \<in> set [(''S'', 1 :: real), (''A'', 4 / 5)].
          a \<noteq> ''S'' \<and> item_id it \<in> set (cites_1_2 bench_store a)"
    using retrieve_cases_excludes_source_hit [of "Inr bench_store" "[]" "''S''"
      "[\<lparr>item_id = ''G'', item_offense = Some ''Theft''\<rparr>,
        \<lparr>item_id = ''S'', item_offense = Some ''Theft''\<rparr>]" bench_store
      "[(''S'', 1), (''A'', 4 / 5)]"] graph_bench_store hits_bench_store
    by blast
  then have graph: "\<exists>(a, sc) \<in> set [(''S'', 1 :: real), (''A'', 4 / 5)].
         a \<noteq> ''S'' \<and> ''G'' \<in> set (cites_1_2 bench_store a)"
    by simp
  show ?thesis using baseline_bench_store base graph by (intro conjI)
qed

end
